theory Spec2Isabelle
  imports Complex_Main "HOL-Library.Word" "HOL-Library.AList" "HOL-Library.Sublist"
begin

section \<open>The C preprocessor fragment used by the two headers\<close>

text \<open>
  Both source files, \<^verbatim>\<open>lib/util.h\<close> and
  \<^verbatim>\<open>test/optimal/bfs_high_diameter/header.h\<close>, configure the
  program through object-like macros. A macro's replacement list is kept as written: a
  decimal integer literal, a literal cast to \<^verbatim>\<open>float\<close> or to
  \<^verbatim>\<open>int\<close>, or nothing (an include guard).
\<close>

datatype macro_body =
    Empty
  | IntLit int
  | CastInt int
  | CastFloat rat

text \<open>
  The directives that occur in the headers. \<open>Ifndef name thens elses\<close> is
  \<^verbatim>\<open>#ifndef name ... #else ... #endif\<close>; a missing
  \<^verbatim>\<open>#else\<close> is an empty second list.
\<close>

datatype directive =
    Define string macro_body
  | Undef string
  | Ifndef string "directive list" "directive list"

text \<open>
  The macro table is an association list; a name defined on the compiler's command line
  (\<^verbatim>\<open>-DBLKS_NUM=96\<close>) is an entry of the table the translation unit
  starts with.
\<close>

type_synonym macro_env = "(string \<times> macro_body) list"

fun run_directive :: "directive \<Rightarrow> macro_env \<Rightarrow> macro_env"
  and preprocess :: "directive list \<Rightarrow> macro_env \<Rightarrow> macro_env" where
  "run_directive (Define n b) env = AList.update n b env"
| "run_directive (Undef n) env = AList.delete n env"
| "run_directive (Ifndef n thens elses) env =
     (if map_of env n = None then preprocess thens env else preprocess elses env)"
| "preprocess [] env = env"
| "preprocess (d # ds) env = preprocess ds (run_directive d env)"

definition macro :: "macro_env \<Rightarrow> string \<Rightarrow> macro_body option" where
  "macro env n = map_of env n"

subsection \<open>lib/util.h\<close>

text \<open>
  Lines 19 to 41 of \<^verbatim>\<open>util.h\<close>, inside the include guard
  \<^verbatim>\<open>UTIL_H\<close>. The commented-out alternatives (lines 21, 24, 26 to
  30, 42) are comments and define nothing.
\<close>

definition util_h :: "directive list" where
  "util_h =
    [Ifndef ''UTIL_H''
      [Define ''UTIL_H'' Empty,
       Define ''SML_MID'' (IntLit 32),
       Define ''MID_LRG'' (IntLit 1024),
       Define ''SWITCH_TO'' (CastFloat (2 / 10)),
       Define ''SWITCH_BACK'' (CastFloat (4 / 10)),
       Ifndef ''GPUID'' [Define ''GPUID'' (IntLit 0)] [],
       Ifndef ''THDS_NUM'' [Define ''THDS_NUM'' (IntLit 512)] [],
       Ifndef ''BLKS_NUM'' [Define ''BLKS_NUM'' (IntLit 512)] []]
      []]"


subsection \<open>test/optimal/bfs_high_diameter/header.h\<close>

text \<open>
  Lines 9 to 17 of \<^verbatim>\<open>header.h\<close>, inside the include guard
  \<^verbatim>\<open>HEADER_H\<close>.  Both branches of the \<^verbatim>\<open>#ifndef BLKS_NUM\<close> end with
  \<^verbatim>\<open>BLKS_NUM\<close> defined as 256.
\<close>

definition header_h :: "directive list" where
  "header_h =
    [Ifndef ''HEADER_H''
      [Define ''HEADER_H'' Empty,
       Define ''INFTY'' (CastInt (- 1)),
       Ifndef ''BLKS_NUM''
         [Define ''BLKS_NUM'' (IntLit 256)]
         [Undef ''BLKS_NUM'', Define ''BLKS_NUM'' (IntLit 256)],
       Define ''BIN_SZ'' (IntLit 8192)]
      []]"

subsection \<open>The value of a macro\<close>

text \<open>
  The types \<^verbatim>\<open>header.h\<close> declares: \<^verbatim>\<open>int\<close>
  and \<^verbatim>\<open>unsigned int\<close> are 32 bits wide on every platform the CUDA
  toolchain supports, \<^verbatim>\<open>unsigned char\<close> is 8 bits. A word carries
  no sign: a value of a signed type is read with \<open>sint\<close>, a value of an
  unsigned type with \<open>unat\<close>.
\<close>

type_synonym index_t = "32 word"
type_synonym vertex_t = "32 word"
type_synonym feature_t = "32 word"
type_synonym weight_t = "32 word"
type_synonym bit_t = "8 word"

text \<open>Rounding to the nearest integer, ties to even.\<close>

definition round_half_even :: "rat \<Rightarrow> int" where
  "round_half_even q =
     (let f = \<lfloor>q\<rfloor>; d = q - of_int f
      in if d < 1 / 2 then f
         else if 1 / 2 < d then f + 1
         else if even f then f else f + 1)"

text \<open>
  The value nearest to \<open>q\<close> among the multiples of
  \<open>2\<^sup>-\<^sup>p\<close>, ties to even: the rounding of a number of the binade
  \<open>[1, 2)\<close> to \<open>p\<close> fraction bits.
\<close>

definition nearest :: "nat \<Rightarrow> rat \<Rightarrow> rat" where
  "nearest p q = of_int (round_half_even (q * 2 ^ p)) / 2 ^ p"

text \<open>
  Rounding to a binary floating-point format of \<open>p\<close> fraction bits.  A number
  from 1 upwards is halved into \<open>[1, 2)\<close>, rounded there and scaled back; the
  second argument is the largest exponent of the format, and a number that lies or rounds
  above the largest finite value has no finite result (the conversion gives an infinity):
  \<open>None\<close>.  A number below 1 is doubled into \<open>[1, 2)\<close> at most as many
  times as the smallest normal exponent allows; what is still below 1 then is rounded on
  the grid of the lowest binade, as a subnormal number is.
\<close>

fun round_large :: "nat \<Rightarrow> nat \<Rightarrow> rat \<Rightarrow> rat option" where
  "round_large p 0 q = (if q < 2 \<and> nearest p q < 2 then Some (nearest p q) else None)"
| "round_large p (Suc n) q =
     (if q < 2 then Some (nearest p q) else map_option (\<lambda>r. r * 2) (round_large p n (q / 2)))"

fun round_small :: "nat \<Rightarrow> nat \<Rightarrow> rat \<Rightarrow> rat" where
  "round_small p 0 q = nearest p q"
| "round_small p (Suc n) q = (if 1 \<le> q then nearest p q else round_small p n (q * 2) / 2)"

definition to_binary :: "nat \<Rightarrow> nat \<Rightarrow> nat \<Rightarrow> rat \<Rightarrow> rat option" where
  "to_binary p emax emin q =
     (if q = 0 then Some 0
      else if 0 < q then
        (if q < 1 then Some (round_small p emin q) else round_large p emax q)
      else
        (if - q < 1 then Some (- round_small p emin (- q))
         else map_option uminus (round_large p emax (- q))))"

text \<open>
  The two formats: \<^verbatim>\<open>double\<close> is binary64, 52 fraction bits and
  exponents from \<open>-1022\<close> to 1023; \<^verbatim>\<open>float\<close> is binary32,
  23 fraction bits and exponents from \<open>-126\<close> to 127.
\<close>

definition to_double :: "rat \<Rightarrow> rat option" where
  "to_double = to_binary 52 1023 1022"

definition to_float :: "rat \<Rightarrow> rat option" where
  "to_float = to_binary 23 127 126"

text \<open>
  The conversion \<^verbatim>\<open>(float)\<close> of a decimal literal without a suffix: the
  literal has the type \<^verbatim>\<open>double\<close>, so it is rounded to binary64 first,
  and the cast rounds that value to binary32.
\<close>

definition float_of_literal :: "rat \<Rightarrow> rat option" where
  "float_of_literal q = (case to_double q of None \<Rightarrow> None | Some d \<Rightarrow> to_float d)"

text \<open>
  The number a macro stands for where the program uses it: an integer literal is itself,
  \<^verbatim>\<open>(int)n\<close> is \<open>n\<close> read as a 32-bit two's complement
  value, \<^verbatim>\<open>(float)q\<close> is the binary32 value nearest to
  \<open>q\<close>.
\<close>

fun body_value :: "macro_body \<Rightarrow> rat option" where
  "body_value Empty = None"
| "body_value (IntLit n) = Some (of_int n)"
| "body_value (CastInt n) = Some (of_int (sint (word_of_int n :: 32 word)))"
| "body_value (CastFloat q) = float_of_literal q"

definition macro_value :: "macro_env \<Rightarrow> string \<Rightarrow> rat option" where
  "macro_value env n = (case macro env n of None \<Rightarrow> None | Some b \<Rightarrow> body_value b)"

text \<open>
  A macro used where the program needs an \<^verbatim>\<open>int\<close>: the 32-bit
  pattern of an integer literal or of an \<^verbatim>\<open>(int)\<close> cast.
\<close>

fun body_word :: "macro_body \<Rightarrow> 32 word option" where
  "body_word Empty = None"
| "body_word (IntLit n) = Some (word_of_int n)"
| "body_word (CastInt n) = Some (word_of_int n)"
| "body_word (CastFloat q) = None"

definition int_macro :: "macro_env \<Rightarrow> string \<Rightarrow> 32 word option" where
  "int_macro env n = (case macro env n of None \<Rightarrow> None | Some b \<Rightarrow> body_word b)"

section \<open>The error handler of lib/util.h\<close>

text \<open>
  \<^verbatim>\<open>cudaError_t\<close> is the CUDA runtime's error enumeration, whose
  first member \<^verbatim>\<open>cudaSuccess\<close> is 0.
  \<^verbatim>\<open>EXIT_FAILURE\<close> is the constant of
  \<^verbatim>\<open>stdlib.h\<close>, 1 on the hosts the CUDA toolchain supports.
\<close>

type_synonym cudaError_t = int

definition cudaSuccess :: cudaError_t where
  "cudaSuccess = 0"

definition EXIT_FAILURE :: int where
  "EXIT_FAILURE = 1"

text \<open>The conversion \<^verbatim>\<open>%d\<close> of \<^verbatim>\<open>printf\<close>: a signed decimal numeral.\<close>

fun show_nat :: "nat \<Rightarrow> string" where
  "show_nat n =
     (if n < 10 then [''0123456789'' ! n]
      else show_nat (n div 10) @ [''0123456789'' ! (n mod 10)])"

definition show_int :: "int \<Rightarrow> string" where
  "show_int i = (if i < 0 then CHR ''-'' # show_nat (nat (- i)) else show_nat (nat i))"

text \<open>
  What a call does to the process: the texts written to standard output so far, one entry
  for each call of \<^verbatim>\<open>printf\<close>, and whether the call returned to its
  caller or ended the process through \<^verbatim>\<open>exit\<close> with a status.
\<close>

datatype outcome = Returned | Exited int

text \<open>
  \<^verbatim>\<open>HandleError\<close>, lines 5 to 14 of
  \<^verbatim>\<open>util.h\<close>. The first argument stands for
  \<^verbatim>\<open>cudaGetErrorString\<close> of the CUDA runtime;
  \<^verbatim>\<open>line\<close> is a C \<^verbatim>\<open>int\<close>.
\<close>

definition HandleError ::
  "(cudaError_t \<Rightarrow> string) \<Rightarrow> cudaError_t \<Rightarrow> string \<Rightarrow> 32 word \<Rightarrow> string list
     \<Rightarrow> string list \<times> outcome" where
  "HandleError cudaGetErrorString err file line out =
     (if err \<noteq> cudaSuccess
      then (out @ [cudaGetErrorString err @ '' in '' @ file @ '' at line ''
                     @ show_int (sint line) @ [CHR 0x0A]],
            Exited EXIT_FAILURE)
      else (out, Returned))"

text \<open>
  The macro \<^verbatim>\<open>H_ERR\<close>, lines 15 and 16: the handler called with the
  file and the line of the place where the macro is expanded.
\<close>

definition H_ERR ::
  "string \<Rightarrow> 32 word \<Rightarrow> (cudaError_t \<Rightarrow> string) \<Rightarrow> cudaError_t \<Rightarrow> string list
     \<Rightarrow> string list \<times> outcome" where
  "H_ERR FILE LINE cudaGetErrorString err out = HandleError cudaGetErrorString err FILE LINE out"

section \<open>The types and the sentinel of header.h\<close>

text \<open>How a value of each type is read.\<close>

definition index_val :: "index_t \<Rightarrow> int" where
  "index_val i = sint i"

definition vertex_val :: "vertex_t \<Rightarrow> nat" where
  "vertex_val v = unat v"

definition feature_val :: "feature_t \<Rightarrow> int" where
  "feature_val l = sint l"

text \<open>
  A compressed-sparse-row adjacency as the program's arrays hold it: offsets of type
  \<^verbatim>\<open>index_t\<close>, neighbour ids of type
  \<^verbatim>\<open>vertex_t\<close>.
\<close>

record csr =
  offsets :: "index_t list"
  neighbors :: "vertex_t list"

text \<open>
  Modelled from the spec: the invariant of the data model for a graph of \<open>V\<close>
  vertices and \<open>E\<close> directed edges, whose owner (the graph loader) is not
  among the source files. The offsets array has \<open>V + 1\<close> entries, is
  non-decreasing, and its last entry is \<open>E\<close>; there are \<open>E\<close>
  neighbour ids.
\<close>

definition csr_invariant :: "nat \<Rightarrow> nat \<Rightarrow> csr \<Rightarrow> bool" where
  "csr_invariant V E c \<longleftrightarrow>
     length (offsets c) = V + 1 \<and>
     length (neighbors c) = E \<and>
     sorted (map index_val (offsets c)) \<and>
     index_val (offsets c ! V) = int E"

text \<open>\<^verbatim>\<open>#define INFTY (int)-1\<close>, line 9 of \<^verbatim>\<open>header.h\<close>.\<close>

definition INFTY :: feature_t where
  "INFTY = word_of_int (- 1)"

text \<open>The test \<^verbatim>\<open>level[v] == INFTY\<close> on an entry of the level array.\<close>

definition unvisited :: "feature_t \<Rightarrow> bool" where
  "unvisited l \<longleftrightarrow> l = INFTY"

text \<open>
  What the level array holds for a vertex: the sentinel while the vertex is undiscovered,
  its level once it is discovered.
\<close>

definition level_entry :: "nat option \<Rightarrow> feature_t" where
  "level_entry x = (case x of None \<Rightarrow> INFTY | Some k \<Rightarrow> word_of_nat k)"

section \<open>Division by the bin size\<close>

text \<open>
  Integer division and remainder of C on unsigned operands: a zero divisor is a fault,
  not a value.
\<close>

datatype fault = DivisionByZero

definition c_div :: "nat \<Rightarrow> nat \<Rightarrow> fault + nat" where
  "c_div a b = (if b = 0 then Inl DivisionByZero else Inr (a div b))"

definition c_mod :: "nat \<Rightarrow> nat \<Rightarrow> fault + nat" where
  "c_mod a b = (if b = 0 then Inl DivisionByZero else Inr (a mod b))"

text \<open>The bin size a translation unit is compiled with, \<open>None\<close> when it defines none.\<close>

definition bin_size :: "macro_env \<Rightarrow> nat option" where
  "bin_size env = map_option unat (int_macro env ''BIN_SZ'')"

section \<open>The strategy selector\<close>

text \<open>
  The thresholds of \<^verbatim>\<open>util.h\<close> as the selector reads them: the two
  frontier-size breakpoints and the two ratio thresholds.
\<close>

record thresholds =
  sml_mid :: nat
  mid_lrg :: nat
  switch_to :: rat
  switch_back :: rat

definition thresholds_of :: "macro_env \<Rightarrow> thresholds option" where
  "thresholds_of env =
     (case (int_macro env ''SML_MID'', int_macro env ''MID_LRG'',
            macro_value env ''SWITCH_TO'', macro_value env ''SWITCH_BACK'') of
        (Some s, Some l, Some t, Some b) \<Rightarrow>
          Some \<lparr>sml_mid = nat (sint s), mid_lrg = nat (sint l), switch_to = t, switch_back = b\<rparr>
      | _ \<Rightarrow> None)"

datatype strategy = TOP_DOWN | BOTTOM_UP

text \<open>
  Modelled from the spec: the selector's transition function (section 4.5), which is not
  among the source files. \<open>F\<close> is the frontier size of the level and
  \<open>r\<close> the ratio \<open>D / E\<close>. From \<open>TOP_DOWN\<close> the
  selector moves to \<open>BOTTOM_UP\<close> when \<open>F \<ge> SML_MID\<close> and
  \<open>r \<ge> SWITCH_TO\<close>; from \<open>BOTTOM_UP\<close> it moves back when
  \<open>F < MID_LRG\<close> and \<open>r < SWITCH_BACK\<close>; otherwise it stays.
\<close>

fun select :: "thresholds \<Rightarrow> strategy \<Rightarrow> nat \<Rightarrow> rat \<Rightarrow> strategy" where
  "select cfg TOP_DOWN F r =
     (if sml_mid cfg \<le> F \<and> switch_to cfg \<le> r then BOTTOM_UP else TOP_DOWN)"
| "select cfg BOTTOM_UP F r =
     (if F < mid_lrg cfg \<and> r < switch_back cfg then TOP_DOWN else BOTTOM_UP)"








section \<open>The traversal engine\<close>

text \<open>
  Modelled from the spec: the traversal itself (sections 2 to 5) is not among the source
  files, which hold its configuration and its types.  Everything in this section follows
  the spec's description of the components; the types of the arrays are those of
  \<^verbatim>\<open>header.h\<close>.
\<close>

text \<open>
  Modelled from the spec: the graph at the input boundary (sections 3 and 6), the vertex
  count and the two adjacencies, out-edges and in-edges.
\<close>

record graph =
  vert_count :: nat
  out_adj :: csr
  in_adj :: csr

definition edge_count :: "graph \<Rightarrow> nat" where
  "edge_count g = length (neighbors (out_adj g))"

text \<open>
  Modelled from the spec: the neighbour ids of a vertex in a compressed-sparse-row
  adjacency, the entries between its offset and the next one.
\<close>

definition row :: "csr \<Rightarrow> nat \<Rightarrow> nat list" where
  "row c v =
     (let lo = nat (index_val (offsets c ! v)); hi = nat (index_val (offsets c ! (v + 1)))
      in map vertex_val (take (hi - lo) (drop lo (neighbors c))))"

text \<open>
  Modelled from the spec: a graph the loader may hand over. Both adjacencies satisfy the
  invariant of the data model and start at a non-negative offset, every neighbour id is a
  vertex, and the in-edges are the out-edges reversed.
\<close>

definition graph_ok :: "graph \<Rightarrow> bool" where
  "graph_ok g \<longleftrightarrow>
     csr_invariant (vert_count g) (edge_count g) (out_adj g) \<and>
     csr_invariant (vert_count g) (edge_count g) (in_adj g) \<and>
     0 \<le> index_val (offsets (out_adj g) ! 0) \<and>
     0 \<le> index_val (offsets (in_adj g) ! 0) \<and>
     list_all (\<lambda>u. list_all (\<lambda>v. v < vert_count g \<and> u \<in> set (row (in_adj g) v))
                  (row (out_adj g) u)) [0..<vert_count g] \<and>
     list_all (\<lambda>v. list_all (\<lambda>u. u < vert_count g \<and> v \<in> set (row (out_adj g) u))
                  (row (in_adj g) v)) [0..<vert_count g]"

text \<open>
  Modelled from the spec: the edge relation of the graph, and the length in edges of a
  shortest path from a source (section 8): \<open>n\<close> edges lead from
  \<open>s\<close> to \<open>v\<close> and no fewer do.
\<close>

definition edges :: "graph \<Rightarrow> (nat \<times> nat) set" where
  "edges g = {(u, v). u < vert_count g \<and> v \<in> set (row (out_adj g) u)}"

definition shortest :: "graph \<Rightarrow> nat \<Rightarrow> nat \<Rightarrow> nat \<Rightarrow> bool" where
  "shortest g s v n \<longleftrightarrow> (s, v) \<in> edges g ^^ n \<and> (\<forall>m<n. (s, v) \<notin> edges g ^^ m)"

subsection \<open>Frontier store\<close>

text \<open>
  Modelled from the spec: the frontier store (sections 3 and 4.1). The frontier has two
  forms, an ordered sequence of vertex ids, or a bitmap over all vertices with one
  \<^verbatim>\<open>bit_t\<close> for each; \<open>representationFor\<close> gives the
  queue form to a frontier smaller than \<open>SML_MID\<close> and the bitmap form to any
  other.
\<close>

datatype frontier = Queue "nat list" | Bitmap "bit_t list"

fun members :: "frontier \<Rightarrow> nat list" where
  "members (Queue q) = q"
| "members (Bitmap b) = filter (\<lambda>v. b ! v \<noteq> 0) [0..<length b]"

definition isEmpty :: "frontier \<Rightarrow> bool" where
  "isEmpty f \<longleftrightarrow> members f = []"

fun to_bitmap :: "nat \<Rightarrow> frontier \<Rightarrow> bit_t list" where
  "to_bitmap V (Bitmap b) = b"
| "to_bitmap V (Queue q) = map (\<lambda>v. if v \<in> set q then 1 else 0) [0..<V]"

definition representationFor :: "thresholds \<Rightarrow> nat \<Rightarrow> nat list \<Rightarrow> frontier" where
  "representationFor cfg V q =
     (if length q < sml_mid cfg then Queue q else Bitmap (to_bitmap V (Queue q)))"

text \<open>
  Modelled from the spec: the state of a traversal between two levels, the level array,
  the frontier, the number of the current level, the selector's state, and the frontier
  sizes of the levels executed so far. \<open>create\<close> gives the source the level 0
  and makes it the only member of the frontier.
\<close>

record bfs_state =
  level :: "feature_t list"
  frontier :: frontier
  depth :: feature_t
  strategy :: strategy
  sizes :: "nat list"

definition create :: "nat \<Rightarrow> nat \<Rightarrow> bfs_state" where
  "create V initial_vertex =
     \<lparr>level = (replicate V INFTY)[initial_vertex := 0],
      frontier = Queue [initial_vertex],
      depth = 0,
      strategy = TOP_DOWN,
      sizes = []\<rparr>"

text \<open>
  Modelled from the spec: the atomic claim (sections 4.1 and 5). The level of a vertex is
  set only if the vertex is still unvisited, and the vertex that was claimed joins the
  next frontier. The parallel workers of a level are taken one after the other; a claim
  that loses changes nothing.
\<close>

definition claim ::
  "feature_t \<Rightarrow> nat \<Rightarrow> feature_t list \<times> nat list \<Rightarrow> feature_t list \<times> nat list" where
  "claim L v acc =
     (case acc of (lv, nxt) \<Rightarrow>
        if unvisited (lv ! v) then (lv[v := L], nxt @ [v]) else (lv, nxt))"

subsection \<open>Binning\<close>

text \<open>A list cut into pieces of \<open>n\<close> elements, the last one possibly shorter.\<close>

fun chop :: "nat \<Rightarrow> 'a list \<Rightarrow> 'a list list" where
  "chop 0 xs = []"
| "chop (Suc n) [] = []"
| "chop (Suc n) (x # xs) = take (Suc n) (x # xs) # chop (Suc n) (drop n xs)"

text \<open>
  Modelled from the spec: binning (section 4.2), the units of work of a top-down step
  over the frontier \<open>q\<close>.  The out-neighbours of
  the frontier, in order, are cut at the multiples of the bin size; with a bin size of 0
  binning is skipped and every frontier vertex is one unit.
\<close>

definition bins :: "nat \<Rightarrow> graph \<Rightarrow> nat list \<Rightarrow> nat list list" where
  "bins bin_sz g q =
     (if bin_sz = 0 then map (row (out_adj g)) q
      else chop bin_sz (concat (map (row (out_adj g)) q)))"

subsection \<open>The two steppers\<close>

text \<open>
  Modelled from the spec: the top-down stepper (section 4.3). Every out-neighbour of every
  frontier vertex is claimed for the level \<open>L\<close>. A frontier larger than
  \<open>SML_MID\<close> goes through the bins.
\<close>

definition top_down_step ::
  "thresholds \<Rightarrow> nat \<Rightarrow> graph \<Rightarrow> feature_t \<Rightarrow> frontier \<Rightarrow> feature_t list
     \<Rightarrow> feature_t list \<times> nat list" where
  "top_down_step cfg bin_sz g L f lv =
     (let q = members f;
          units = (if sml_mid cfg < length q then bins bin_sz g q
                   else map (row (out_adj g)) q)
      in fold (\<lambda>unit acc. fold (claim L) unit acc) units (lv, []))"

text \<open>
  Modelled from the spec: the bottom-up stepper (section 4.4). Every unvisited vertex
  scans its in-neighbours until one is in the frontier bitmap; if there is one, the vertex
  is claimed for the level \<open>L\<close>.
\<close>

definition bottom_up_step ::
  "graph \<Rightarrow> feature_t \<Rightarrow> bit_t list \<Rightarrow> feature_t list \<Rightarrow> feature_t list \<times> nat list" where
  "bottom_up_step g L bm lv =
     fold (\<lambda>v acc.
             if unvisited (fst acc ! v) \<and> list_ex (\<lambda>u. bm ! u \<noteq> 0) (row (in_adj g) v)
             then claim L v acc else acc)
          [0..<vert_count g] (lv, [])"

subsection \<open>The loop over the levels\<close>

text \<open>
  Modelled from the spec: one level of the control flow (section 2). The selector is asked
  with the frontier size and the ratio of the frontier's out-degree sum \<open>D\<close>
  to the edge count \<open>E\<close>, and the stepper it chooses produces the next
  frontier and the new levels. For a graph with no edge the quotient is 0 here; the levels
  do not depend on the selector's choice.
\<close>

definition level_step :: "thresholds \<Rightarrow> nat \<Rightarrow> graph \<Rightarrow> bfs_state \<Rightarrow> bfs_state" where
  "level_step cfg bin_sz g st =
     (let q = members (frontier st);
          D = sum_list (map (\<lambda>u. length (row (out_adj g) u)) q);
          s = select cfg (strategy st) (length q) (of_nat D / of_nat (edge_count g));
          L = depth st + 1;
          res = (case s of
                   TOP_DOWN \<Rightarrow> top_down_step cfg bin_sz g L (frontier st) (level st)
                 | BOTTOM_UP \<Rightarrow>
                     bottom_up_step g L (to_bitmap (vert_count g) (frontier st)) (level st))
      in \<lparr>level = fst res,
          frontier = representationFor cfg (vert_count g) (snd res),
          depth = L,
          strategy = s,
          sizes = sizes st @ [length q]\<rparr>)"

text \<open>
  Modelled from the spec: the loop over the levels, which ends when the frontier is
  empty.  A loop that does not end has the value \<open>None\<close>.
\<close>

partial_function (option) bfs_loop ::
  "thresholds \<Rightarrow> nat \<Rightarrow> graph \<Rightarrow> bfs_state \<Rightarrow> bfs_state option" where
  "bfs_loop cfg bin_sz g st =
     (if isEmpty (frontier st) then Some st
      else bfs_loop cfg bin_sz g (level_step cfg bin_sz g st))"

declare bfs_loop.simps [code]

subsection \<open>Start-up\<close>

text \<open>
  Modelled from the spec: configuration errors (section 7). The thresholds are
  inconsistent when \<open>SWITCH_TO \<ge> SWITCH_BACK\<close> or the bin size is 0; this
  is detected before the traversal begins, reported with one diagnostic, and fatal.
\<close>

definition config_error :: "thresholds \<Rightarrow> nat \<Rightarrow> bool" where
  "config_error cfg bin_sz \<longleftrightarrow> switch_back cfg \<le> switch_to cfg \<or> bin_sz = 0"

datatype diagnostic = ConfigurationError

text \<open>
  Modelled from the spec: a run of the program, the diagnostics it reported, and either
  the status of a fatal exit or the final state of the traversal. \<open>None\<close>
  stands for a traversal that does not return.
\<close>

definition run ::
  "thresholds \<Rightarrow> nat \<Rightarrow> graph \<Rightarrow> nat \<Rightarrow> (diagnostic list \<times> (int + bfs_state)) option" where
  "run cfg bin_sz g source =
     (if config_error cfg bin_sz then Some ([ConfigurationError], Inl EXIT_FAILURE)
      else map_option (\<lambda>st. ([], Inr st))
             (bfs_loop cfg bin_sz g (create (vert_count g) source)))"

subsection \<open>Invariants of the traversal\<close>

text \<open>
  A frontier over \<open>V\<close> vertices: a queue holds vertex ids only, a bitmap has
  one entry for each vertex.
\<close>

definition frontier_ok :: "nat \<Rightarrow> frontier \<Rightarrow> bool" where
  "frontier_ok V f \<longleftrightarrow> (case f of Queue q \<Rightarrow> set q \<subseteq> {..<V} | Bitmap b \<Rightarrow> length b = V)"

text \<open>
  What holds between two levels of a traversal from \<open>s\<close>, when
  \<open>k\<close> levels have been executed: the level counter is \<open>k\<close>; a
  vertex within \<open>k\<close> steps of the source holds its shortest-path length, every
  other vertex holds the sentinel; the frontier is the set of vertices at distance
  \<open>k\<close>; and no earlier level was empty.
\<close>

definition bfs_inv :: "graph \<Rightarrow> nat \<Rightarrow> nat \<Rightarrow> bfs_state \<Rightarrow> bool" where
  "bfs_inv g s k st \<longleftrightarrow>
     depth st = word_of_nat k \<and>
     length (level st) = vert_count g \<and>
     frontier_ok (vert_count g) (frontier st) \<and>
     (\<forall>v<vert_count g.
        (level st ! v = INFTY \<and> (\<forall>n\<le>k. (s, v) \<notin> edges g ^^ n)) \<or>
        (\<exists>n\<le>k. level st ! v = word_of_nat n \<and> shortest g s v n)) \<and>
     set (members (frontier st)) = {v. v < vert_count g \<and> shortest g s v k} \<and>
     (\<forall>j<k. \<exists>v<vert_count g. shortest g s v j)"

subsection \<open>An example\<close>

text \<open>
  Five vertices with the edges \<open>0 \<rightarrow> 1\<close>, \<open>0 \<rightarrow>
  2\<close>, \<open>1 \<rightarrow> 3\<close>, \<open>2 \<rightarrow> 3\<close> and
  \<open>4 \<rightarrow> 4\<close>, and thresholds under which a traversal from 0 takes
  its second level bottom-up.
\<close>

definition example_graph :: graph where
  "example_graph =
     \<lparr>vert_count = 5,
      out_adj = \<lparr>offsets = [0, 2, 3, 4, 4, 5], neighbors = [1, 2, 3, 3, 4]\<rparr>,
      in_adj = \<lparr>offsets = [0, 0, 1, 2, 4, 5], neighbors = [0, 0, 1, 2, 4]\<rparr>\<rparr>"

definition example_thresholds :: thresholds where
  "example_thresholds = \<lparr>sml_mid = 2, mid_lrg = 1024, switch_to = 1 / 5, switch_back = 2 / 5\<rparr>"

section \<open>Properties of the configuration headers\<close>

lemma preprocess_append: "preprocess (ds @ es) env = preprocess es (preprocess ds env)"
  by (induction ds arbitrary: env) simp_all

lemma map_of_guarded_define:
  "map_of (run_directive (Ifndef n [Define n b] []) env) m =
     (if m = n then Some (case map_of env n of None \<Rightarrow> b | Some c \<Rightarrow> c) else map_of env m)"
  by (cases "map_of env n") (simp_all add: update_conv')

lemma map_of_define:
  "map_of (run_directive (Define n b) env) m = (if m = n then Some b else map_of env m)"
  by (simp add: update_conv')

lemma run_ifndef_undefined:
  "map_of env n = None \<Longrightarrow> run_directive (Ifndef n thens elses) env = preprocess thens env"
  by simp

text \<open>
  The macro table after \<^verbatim>\<open>util.h\<close>, included for the first time:
  the four thresholds are defined whatever the table held, the three guarded parameters
  keep a value supplied before and take their default otherwise.
\<close>

lemma macro_util_h:
  assumes "macro env ''UTIL_H'' = None"
  shows "macro (preprocess util_h env) n =
     (if n = ''BLKS_NUM'' then Some (case macro env n of None \<Rightarrow> IntLit 512 | Some b \<Rightarrow> b)
      else if n = ''THDS_NUM'' then Some (case macro env n of None \<Rightarrow> IntLit 512 | Some b \<Rightarrow> b)
      else if n = ''GPUID'' then Some (case macro env n of None \<Rightarrow> IntLit 0 | Some b \<Rightarrow> b)
      else if n = ''SWITCH_BACK'' then Some (CastFloat (4 / 10))
      else if n = ''SWITCH_TO'' then Some (CastFloat (2 / 10))
      else if n = ''MID_LRG'' then Some (IntLit 1024)
      else if n = ''SML_MID'' then Some (IntLit 32)
      else if n = ''UTIL_H'' then Some Empty
      else macro env n)"
proof -
  have "preprocess util_h env =
    run_directive (Ifndef ''BLKS_NUM'' [Define ''BLKS_NUM'' (IntLit 512)] [])
     (run_directive (Ifndef ''THDS_NUM'' [Define ''THDS_NUM'' (IntLit 512)] [])
       (run_directive (Ifndef ''GPUID'' [Define ''GPUID'' (IntLit 0)] [])
         (run_directive (Define ''SWITCH_BACK'' (CastFloat (4 / 10)))
           (run_directive (Define ''SWITCH_TO'' (CastFloat (2 / 10)))
             (run_directive (Define ''MID_LRG'' (IntLit 1024))
               (run_directive (Define ''SML_MID'' (IntLit 32))
                 (run_directive (Define ''UTIL_H'' Empty) env)))))))"
    using assms
    by (simp only: util_h_def macro_def preprocess.simps run_ifndef_undefined)
  then show ?thesis
    by (simp only: macro_def map_of_guarded_define map_of_define) simp
qed

text \<open>
  The macro table after \<^verbatim>\<open>header.h\<close>, included for the first time:
  whatever the table held for \<^verbatim>\<open>BLKS_NUM\<close>, it holds 256
  afterwards.
\<close>

lemma macro_header_h:
  assumes "macro env ''HEADER_H'' = None"
  shows "macro (preprocess header_h env) n =
     (if n = ''BIN_SZ'' then Some (IntLit 8192)
      else if n = ''BLKS_NUM'' then Some (IntLit 256)
      else if n = ''INFTY'' then Some (CastInt (- 1))
      else if n = ''HEADER_H'' then Some Empty
      else macro env n)"
  using assms by (simp add: header_h_def macro_def update_conv' delete_conv')

lemma macro_Nil: "macro [] n = None"
  by (simp add: macro_def)

lemma macro_Cons: "macro ((k, b) # env) n = (if n = k then Some b else macro env n)"
  by (simp add: macro_def)

text \<open>The two ratio thresholds as binary32 values.\<close>

lemma float_of_switch_to: "float_of_literal (1 / 5) = Some (13421773 / 67108864)"
  by code_simp

lemma float_of_switch_back: "float_of_literal (2 / 5) = Some (13421773 / 33554432)"
  by code_simp

lemma thresholds_of_util_h:
  assumes "macro env ''UTIL_H'' = None"
  shows "thresholds_of (preprocess util_h env) =
           Some \<lparr>sml_mid = 32, mid_lrg = 1024,
                 switch_to = 13421773 / 67108864, switch_back = 13421773 / 33554432\<rparr>"
  using assms
  by (simp add: thresholds_of_def int_macro_def macro_value_def macro_util_h
      float_of_switch_to float_of_switch_back)


text \<open>
  C3: in every translation unit that includes \<^verbatim>\<open>util.h\<close>, the ratio
  thresholds satisfy \<open>SWITCH_TO < SWITCH_BACK\<close> and both are below 1, as the
  literals 0.2 and 0.4 and as the binary32 values the casts give; the frontier-size
  breakpoints are 32 and 1024, so \<open>SML_MID < MID_LRG\<close>.
\<close>

theorem thresholds_ordered:
  assumes "macro env ''UTIL_H'' = None"
  shows "macro (preprocess util_h env) ''SWITCH_TO'' = Some (CastFloat (2 / 10)) \<and>
         macro (preprocess util_h env) ''SWITCH_BACK'' = Some (CastFloat (4 / 10)) \<and>
         (\<exists>cfg. thresholds_of (preprocess util_h env) = Some cfg \<and>
                switch_to cfg < switch_back cfg \<and> switch_to cfg < 1 \<and> switch_back cfg < 1 \<and>
                \<bar>switch_to cfg - 2 / 10\<bar> < 1 / 2 ^ 26 \<and> \<bar>switch_back cfg - 4 / 10\<bar> < 1 / 2 ^ 25 \<and>
                sml_mid cfg < mid_lrg cfg \<and> sml_mid cfg = 32 \<and> mid_lrg cfg = 1024)"
  using assms by (simp add: thresholds_of_util_h macro_util_h)

theorem thresholds_ordered_witness:
  "macro (preprocess util_h []) ''SWITCH_TO'' = Some (CastFloat (2 / 10)) \<and>
   macro (preprocess util_h []) ''SWITCH_BACK'' = Some (CastFloat (4 / 10)) \<and>
   (\<exists>cfg. thresholds_of (preprocess util_h []) = Some cfg \<and>
          switch_to cfg < switch_back cfg \<and> switch_to cfg < 1 \<and> switch_back cfg < 1 \<and>
          \<bar>switch_to cfg - 2 / 10\<bar> < 1 / 2 ^ 26 \<and> \<bar>switch_back cfg - 4 / 10\<bar> < 1 / 2 ^ 25 \<and>
          sml_mid cfg < mid_lrg cfg \<and> sml_mid cfg = 32 \<and> mid_lrg cfg = 1024)"
  using thresholds_ordered [of "[]"] by (simp add: macro_Nil)

text \<open>
  C5, as stated, fails for the blocks-per-grid: in the translation unit that has a bin
  size, the one that includes \<^verbatim>\<open>header.h\<close>,
  \<^verbatim>\<open>BLKS_NUM\<close> is not 512 when nothing is supplied.
\<close>

theorem shipped_blks_num_counterexample:
  "macro (preprocess (util_h @ header_h) []) ''BIN_SZ'' = Some (IntLit 8192) \<and>
   macro (preprocess (util_h @ header_h) []) ''BLKS_NUM'' \<noteq> Some (IntLit 512)"
  by (simp add: preprocess_append macro_header_h macro_util_h macro_Nil macro_Cons)

text \<open>
  C5, amended: with nothing supplied, \<^verbatim>\<open>util.h\<close> gives device id 0,
  512 threads per block, 512 blocks per grid, breakpoints 32 and 1024 and the thresholds
  \<^verbatim>\<open>(float)0.2\<close> and \<^verbatim>\<open>(float)0.4\<close>;
  \<^verbatim>\<open>header.h\<close> gives the bin size 8192 and 256 blocks per grid; and
  a translation unit that includes both, in either order, has the values of
  \<^verbatim>\<open>util.h\<close> except for 256 blocks per grid.
\<close>

theorem shipped_defaults:
  "macro (preprocess util_h []) ''GPUID'' = Some (IntLit 0) \<and>
   macro (preprocess util_h []) ''THDS_NUM'' = Some (IntLit 512) \<and>
   macro (preprocess util_h []) ''BLKS_NUM'' = Some (IntLit 512) \<and>
   macro (preprocess util_h []) ''SML_MID'' = Some (IntLit 32) \<and>
   macro (preprocess util_h []) ''MID_LRG'' = Some (IntLit 1024) \<and>
   macro (preprocess util_h []) ''SWITCH_TO'' = Some (CastFloat (2 / 10)) \<and>
   macro (preprocess util_h []) ''SWITCH_BACK'' = Some (CastFloat (4 / 10)) \<and>
   macro (preprocess header_h []) ''BIN_SZ'' = Some (IntLit 8192) \<and>
   macro (preprocess header_h []) ''BLKS_NUM'' = Some (IntLit 256) \<and>
   map (macro (preprocess (util_h @ header_h) []))
       [''GPUID'', ''THDS_NUM'', ''BLKS_NUM'', ''SML_MID'', ''MID_LRG'', ''BIN_SZ''] =
     map (Some \<circ> IntLit) [0, 512, 256, 32, 1024, 8192] \<and>
   map (macro (preprocess (header_h @ util_h) []))
       [''GPUID'', ''THDS_NUM'', ''BLKS_NUM'', ''SML_MID'', ''MID_LRG'', ''BIN_SZ''] =
     map (Some \<circ> IntLit) [0, 512, 256, 32, 1024, 8192] \<and>
   map (macro (preprocess (util_h @ header_h) [])) [''SWITCH_TO'', ''SWITCH_BACK''] =
     map (Some \<circ> CastFloat) [2 / 10, 4 / 10] \<and>
   map (macro (preprocess (header_h @ util_h) [])) [''SWITCH_TO'', ''SWITCH_BACK''] =
     map (Some \<circ> CastFloat) [2 / 10, 4 / 10]"
  by (simp add: preprocess_append macro_header_h macro_util_h macro_Nil macro_Cons)

text \<open>
  C6, as stated, fails: with \<^verbatim>\<open>-DBLKS_NUM=96\<close> on the command line,
  a translation unit that includes \<^verbatim>\<open>header.h\<close>, before or after
  \<^verbatim>\<open>util.h\<close>, is not compiled with 96 blocks.
\<close>

theorem blks_num_override_counterexample:
  "macro (preprocess (util_h @ header_h) [(''BLKS_NUM'', IntLit 96)]) ''BLKS_NUM''
     \<noteq> Some (IntLit 96) \<and>
   macro (preprocess (header_h @ util_h) [(''BLKS_NUM'', IntLit 96)]) ''BLKS_NUM''
     \<noteq> Some (IntLit 96)"
  by (simp add: preprocess_append macro_header_h macro_util_h macro_Nil macro_Cons)

text \<open>
  C6, amended: in a translation unit that includes only \<^verbatim>\<open>util.h\<close>,
  \<^verbatim>\<open>BLKS_NUM\<close> is 512 when no definition is supplied and the
  supplied definition otherwise; in a translation unit that includes
  \<^verbatim>\<open>header.h\<close>, alone or with \<^verbatim>\<open>util.h\<close> in
  either order, it is 256 whatever was supplied.
\<close>

theorem blks_num_configurable:
  assumes "macro env ''UTIL_H'' = None" and "macro env ''HEADER_H'' = None"
  shows "(macro env ''BLKS_NUM'' = None \<longrightarrow>
            macro (preprocess util_h env) ''BLKS_NUM'' = Some (IntLit 512)) \<and>
         (\<forall>b. macro env ''BLKS_NUM'' = Some b \<longrightarrow>
            macro (preprocess util_h env) ''BLKS_NUM'' = Some b) \<and>
         macro (preprocess header_h env) ''BLKS_NUM'' = Some (IntLit 256) \<and>
         macro (preprocess (util_h @ header_h) env) ''BLKS_NUM'' = Some (IntLit 256) \<and>
         macro (preprocess (header_h @ util_h) env) ''BLKS_NUM'' = Some (IntLit 256)"
  using assms by (simp add: preprocess_append macro_header_h macro_util_h)

theorem blks_num_configurable_witness:
  "macro (preprocess util_h [(''BLKS_NUM'', IntLit 96)]) ''BLKS_NUM'' = Some (IntLit 96) \<and>
   macro (preprocess util_h []) ''BLKS_NUM'' = Some (IntLit 512) \<and>
   macro (preprocess header_h [(''BLKS_NUM'', IntLit 96)]) ''BLKS_NUM'' = Some (IntLit 256) \<and>
   macro (preprocess (util_h @ header_h) [(''BLKS_NUM'', IntLit 96)]) ''BLKS_NUM''
     = Some (IntLit 256) \<and>
   macro (preprocess (header_h @ util_h) [(''BLKS_NUM'', IntLit 96)]) ''BLKS_NUM''
     = Some (IntLit 256)"
  using blks_num_configurable [of "[(''BLKS_NUM'', IntLit 96)]"] blks_num_configurable [of "[]"]
  by (simp add: macro_Nil macro_Cons)

text \<open>
  C8: \<^verbatim>\<open>header.h\<close> defines \<^verbatim>\<open>BIN_SZ\<close>
  without a guard, so a translation unit that includes it, alone or with
  \<^verbatim>\<open>util.h\<close>, is compiled with the bin size 8192 whatever was
  supplied; the bin size is never 0, and division and remainder by it are defined for
  every dividend.
\<close>

theorem bin_size_division_defined:
  assumes "macro env ''UTIL_H'' = None" and "macro env ''HEADER_H'' = None"
  shows "bin_size (preprocess header_h env) = Some 8192 \<and>
         bin_size (preprocess (util_h @ header_h) env) = Some 8192 \<and>
         bin_size (preprocess (header_h @ util_h) env) = Some 8192 \<and>
         bin_size (preprocess header_h env) \<noteq> Some 0 \<and>
         (\<forall>b. bin_size (preprocess header_h env) = Some b \<longrightarrow>
              c_div a b = Inr (a div 8192) \<and> c_mod a b = Inr (a mod 8192))"
  using assms
  by (simp add: bin_size_def int_macro_def preprocess_append macro_header_h macro_util_h
      c_div_def c_mod_def)

theorem bin_size_division_defined_witness:
  "bin_size (preprocess header_h [(''BIN_SZ'', IntLit 0)]) = Some 8192 \<and>
   c_div 20000 8192 = Inr 2 \<and> c_mod 20000 8192 = Inr 3616"
  using bin_size_division_defined [of "[(''BIN_SZ'', IntLit 0)]" 20000]
  by (simp add: macro_Nil macro_Cons)

section \<open>Properties of the error handler\<close>

lemma sublist_mid: "sublist xs (ps @ xs @ ss)"
  unfolding sublist_def by blast

text \<open>
  C4: \<^verbatim>\<open>H_ERR\<close> ends the process with a non-zero status exactly
  when the error is not \<^verbatim>\<open>cudaSuccess\<close>. It then writes one
  message, which holds the error description, the file and the line number, and exits with
  \<^verbatim>\<open>EXIT_FAILURE\<close>; on \<^verbatim>\<open>cudaSuccess\<close> it
  writes nothing and returns. The handler calls nothing but
  \<^verbatim>\<open>printf\<close> and \<^verbatim>\<open>exit\<close>: nothing is
  retried.
\<close>

theorem HandleError_fatal_iff:
  "((\<exists>n. snd (H_ERR file line errstr err out) = Exited n \<and> n \<noteq> 0) \<longleftrightarrow> err \<noteq> cudaSuccess) \<and>
   (err \<noteq> cudaSuccess \<longrightarrow>
      (\<exists>msg. H_ERR file line errstr err out = (out @ [msg], Exited EXIT_FAILURE) \<and>
             msg = errstr err @ '' in '' @ file @ '' at line '' @ show_int (sint line)
                     @ [CHR 0x0A] \<and>
             sublist (errstr err) msg \<and> sublist file msg \<and>
             sublist (show_int (sint line)) msg)) \<and>
   (err = cudaSuccess \<longrightarrow> H_ERR file line errstr err out = (out, Returned)) \<and>
   H_ERR file line errstr err out = HandleError errstr err file line out"
proof -
  let ?msg = "errstr err @ '' in '' @ file @ '' at line '' @ show_int (sint line) @ [CHR 0x0A]"
  have 1: "sublist (errstr err) ?msg"
    using sublist_mid [of "errstr err" "[]"] by simp
  have 2: "sublist file ?msg"
    using sublist_mid [of "file" "errstr err @ '' in ''"] by simp
  have 3: "sublist (show_int (sint line)) ?msg"
    using sublist_mid [of "show_int (sint line)" "errstr err @ '' in '' @ file @ '' at line ''"]
    by simp
  show ?thesis
    using 1 2 3 by (simp add: H_ERR_def HandleError_def EXIT_FAILURE_def)
qed

theorem HandleError_fatal_iff_witness:
  "(2 :: cudaError_t) \<noteq> cudaSuccess \<and>
   H_ERR ''bfs.cu'' 117 (\<lambda>e. ''out of memory'') 2 []
     = ([''out of memory in bfs.cu at line 117'' @ [CHR 0x0A]], Exited 1) \<and>
   (0 :: cudaError_t) = cudaSuccess \<and>
   H_ERR ''bfs.cu'' 117 (\<lambda>e. ''out of memory'') 0 [] = ([], Returned)"
  using HandleError_fatal_iff [of "''bfs.cu''" 117 "\<lambda>e. ''out of memory''" 2 "[]"]
    HandleError_fatal_iff [of "''bfs.cu''" 117 "\<lambda>e. ''out of memory''" 0 "[]"]
  by (simp add: cudaSuccess_def EXIT_FAILURE_def show_int_def)

section \<open>Properties of the types and of the sentinel\<close>

lemma sint32_range: "- (2 ^ 31) \<le> sint (l :: 32 word) \<and> sint l \<le> 2 ^ 31 - 1"
  using sint_ge [of l] sint_lt [of l] by simp

text \<open>
  C10: an \<^verbatim>\<open>index_t\<close> and a \<^verbatim>\<open>feature_t\<close>
  lie between \<open>- 2\<^sup>3\<^sup>1\<close> and \<open>2\<^sup>3\<^sup>1 - 1\<close>,
  a \<^verbatim>\<open>vertex_t\<close> below \<open>2\<^sup>3\<^sup>2\<close>; hence a
  graph whose offsets array satisfies the invariant \<open>offsets[V] = E\<close> has at
  most \<open>2\<^sup>3\<^sup>1 - 1\<close> edges.
\<close>

theorem index_range:
  "- (2 ^ 31) \<le> index_val i \<and> index_val i \<le> 2 ^ 31 - 1 \<and>
   vertex_val v < 2 ^ 32 \<and>
   - (2 ^ 31) \<le> feature_val l \<and> feature_val l \<le> 2 ^ 31 - 1 \<and>
   (csr_invariant V E c \<longrightarrow> int E \<le> 2 ^ 31 - 1)"
proof -
  have "vertex_val v < 2 ^ 32"
    using unsigned_less [of v, where 'a = nat] by (simp add: vertex_val_def)
  moreover have "csr_invariant V E c \<longrightarrow> int E \<le> 2 ^ 31 - 1"
    using sint32_range [of "offsets c ! V"] by (auto simp: csr_invariant_def index_val_def)
  ultimately show ?thesis
    using sint32_range [of i] sint32_range [of l] by (simp add: index_val_def feature_val_def)
qed

theorem index_range_witness:
  "csr_invariant 2 1 \<lparr>offsets = [0, 1, 1], neighbors = [1]\<rparr> \<and> int 1 \<le> 2 ^ 31 - 1"
  using index_range [of 0 0 0 2 1 "\<lparr>offsets = [0, 1, 1], neighbors = [1]\<rparr>"]
  by (simp add: csr_invariant_def index_val_def)

lemma sint_INFTY: "sint INFTY = - 1"
  by (simp add: INFTY_def)

lemma level_entry_Some:
  assumes "k < 2 ^ 31"
  shows "sint (level_entry (Some k)) = int k" and "level_entry (Some k) \<noteq> INFTY"
proof -
  have "signed_take_bit 31 (int k) = int k"
    using assms by (intro signed_take_bit_int_eq_self) simp_all
  then show 1: "sint (level_entry (Some k)) = int k"
    by (simp add: level_entry_def signed_of_nat)
  show "level_entry (Some k) \<noteq> INFTY"
  proof
    assume "level_entry (Some k) = INFTY"
    then have "int k = - 1" using 1 sint_INFTY by simp
    then show False by simp
  qed
qed

text \<open>
  C9: \<^verbatim>\<open>INFTY\<close> is the \<^verbatim>\<open>int\<close> \<open>- 1\<close>, below every level, and
  no level from 0 to \<open>2\<^sup>3\<^sup>1 - 1\<close> is stored as \<^verbatim>\<open>INFTY\<close>: the test
  \<^verbatim>\<open>level[v] == INFTY\<close> holds of the entry of an undiscovered vertex and fails on
  the entry of a discovered one, which reads back as its level.
\<close>

theorem INFTY_sentinel:
  assumes "macro env ''HEADER_H'' = None"
  shows "int_macro (preprocess header_h env) ''INFTY'' = Some INFTY \<and>
         feature_val INFTY = - 1 \<and>
         (\<forall>l. 0 \<le> feature_val l \<longrightarrow> feature_val INFTY < feature_val l \<and> \<not> unvisited l) \<and>
         unvisited (level_entry None) \<and>
         (\<forall>k < 2 ^ 31. \<not> unvisited (level_entry (Some k)) \<and>
                      feature_val (level_entry (Some k)) = int k)"
proof -
  have "int_macro (preprocess header_h env) ''INFTY'' = Some INFTY"
    using assms by (simp add: int_macro_def macro_header_h INFTY_def)
  moreover have "\<forall>l. 0 \<le> feature_val l \<longrightarrow> feature_val INFTY < feature_val l \<and> \<not> unvisited l"
    using sint_INFTY by (auto simp: feature_val_def unvisited_def)
  ultimately show ?thesis
    using sint_INFTY level_entry_Some
    by (simp add: feature_val_def unvisited_def level_entry_def)
qed

theorem INFTY_sentinel_witness:
  "int_macro (preprocess header_h []) ''INFTY'' = Some INFTY \<and>
   feature_val INFTY = - 1 \<and>
   \<not> unvisited (3 :: feature_t) \<and>
   unvisited (level_entry None) \<and>
   \<not> unvisited (level_entry (Some 7)) \<and> feature_val (level_entry (Some 7)) = 7"
proof -
  have "0 \<le> feature_val (3 :: feature_t)" by (simp add: feature_val_def)
  moreover have "(7 :: nat) < 2 ^ 31" by simp
  ultimately show ?thesis
    using INFTY_sentinel [of "[]"] by (simp add: macro_Nil del: of_nat_numeral)
qed

section \<open>Properties of the strategy selector\<close>










section \<open>Properties of the start-up configuration\<close>





section \<open>Properties of the traversal\<close>

subsection \<open>Levels as words, bins, claims\<close>

lemma word_of_nat_not_INFTY: "k < 2 ^ 31 \<Longrightarrow> (word_of_nat k :: feature_t) \<noteq> INFTY"
  using level_entry_Some(2) [of k] by (simp add: level_entry_def)

lemma word_of_nat_le_not_INFTY: "k \<le> 2 ^ 31 \<Longrightarrow> (word_of_nat k :: feature_t) \<noteq> INFTY"
proof
  assume k: "k \<le> 2 ^ 31" and eq: "(word_of_nat k :: feature_t) = INFTY"
  have "k < 2 ^ LENGTH(32)"
    using k by simp
  with eq have "unat INFTY = k"
    by (rule of_nat_inverse)
  moreover have "unat INFTY = 2 ^ 32 - 1"
    by (simp add: INFTY_def unsigned_minus_1_eq_mask mask_eq_exp_minus_1)
  ultimately show False using k by simp
qed

lemma sint_word_of_nat: "k < 2 ^ 31 \<Longrightarrow> sint (word_of_nat k :: feature_t) = int k"
  using level_entry_Some(1) [of k] by (simp add: level_entry_def)

lemma concat_chop: "0 < n \<Longrightarrow> concat (chop n xs) = xs"
proof (induction n xs rule: chop.induct)
  case (3 n x xs)
  then show ?case by simp
qed simp_all

lemma concat_bins: "concat (bins bin_sz g q) = concat (map (row (out_adj g)) q)"
  by (simp add: bins_def concat_chop)

lemma claim_length: "length (fst (claim L v acc)) = length (fst acc)"
  by (cases acc) (simp add: claim_def)

lemma fold_claim_length: "length (fst (fold (claim L) ws acc)) = length (fst acc)"
  by (induction ws arbitrary: acc) (simp_all add: claim_length)

lemma fold_claim_nth:
  assumes "L \<noteq> INFTY" and "v < length lv"
  shows "fst (fold (claim L) ws (lv, nxt)) ! v =
           (if lv ! v = INFTY \<and> v \<in> set ws then L else lv ! v)"
  using assms(2)
proof (induction ws arbitrary: lv nxt)
  case Nil
  then show ?case by simp
next
  case (Cons w ws)
  show ?case
  proof (cases "lv ! w = INFTY")
    case True
    have "fst (fold (claim L) (w # ws) (lv, nxt)) ! v
            = fst (fold (claim L) ws (lv[w := L], nxt @ [w])) ! v"
      using True by (simp add: claim_def unvisited_def)
    also have "\<dots> = (if lv[w := L] ! v = INFTY \<and> v \<in> set ws then L else lv[w := L] ! v)"
      using Cons.IH [of "lv[w := L]" "nxt @ [w]"] Cons.prems by simp
    also have "\<dots> = (if lv ! v = INFTY \<and> v \<in> set (w # ws) then L else lv ! v)"
      using True assms(1) Cons.prems by (cases "v = w") (simp_all add: nth_list_update)
    finally show ?thesis .
  next
    case False
    have "fst (fold (claim L) (w # ws) (lv, nxt)) ! v = fst (fold (claim L) ws (lv, nxt)) ! v"
      using False by (simp add: claim_def unvisited_def)
    also have "\<dots> = (if lv ! v = INFTY \<and> v \<in> set ws then L else lv ! v)"
      using Cons.IH [of lv nxt] Cons.prems by simp
    also have "\<dots> = (if lv ! v = INFTY \<and> v \<in> set (w # ws) then L else lv ! v)"
      using False by auto
    finally show ?thesis .
  qed
qed

lemma fold_claim_set:
  assumes "L \<noteq> INFTY" and "\<forall>w\<in>set ws. w < length lv"
  shows "set (snd (fold (claim L) ws (lv, nxt))) = set nxt \<union> {w \<in> set ws. lv ! w = INFTY}"
  using assms(2)
proof (induction ws arbitrary: lv nxt)
  case Nil
  then show ?case by simp
next
  case (Cons w ws)
  show ?case
  proof (cases "lv ! w = INFTY")
    case True
    have w: "w < length lv" using Cons.prems by simp
    have upd: "lv[w := L] ! x = INFTY \<longleftrightarrow> x \<noteq> w \<and> lv ! x = INFTY" if "x \<in> set ws" for x
      using that Cons.prems assms(1) by (cases "x = w") (simp_all add: nth_list_update)
    have "set (snd (fold (claim L) (w # ws) (lv, nxt)))
            = set (snd (fold (claim L) ws (lv[w := L], nxt @ [w])))"
      using True by (simp add: claim_def unvisited_def)
    also have "\<dots> = set (nxt @ [w]) \<union> {x \<in> set ws. lv[w := L] ! x = INFTY}"
      using Cons.IH [of "lv[w := L]" "nxt @ [w]"] Cons.prems by simp
    also have "\<dots> = set nxt \<union> {x \<in> set (w # ws). lv ! x = INFTY}"
      using True upd by auto
    finally show ?thesis .
  next
    case False
    have "set (snd (fold (claim L) (w # ws) (lv, nxt))) = set (snd (fold (claim L) ws (lv, nxt)))"
      using False by (simp add: claim_def unvisited_def)
    also have "\<dots> = set nxt \<union> {x \<in> set ws. lv ! x = INFTY}"
      using Cons.IH [of lv nxt] Cons.prems by simp
    also have "\<dots> = set nxt \<union> {x \<in> set (w # ws). lv ! x = INFTY}"
      using False by auto
    finally show ?thesis .
  qed
qed

text \<open>
  The claims of a level may retire in any order: the levels and the members of the next
  frontier depend only on which vertices are claimed.
\<close>

lemma fold_claim_order:
  assumes "L \<noteq> INFTY" and "set ws = set ws'" and "\<forall>w\<in>set ws. w < length lv"
  shows "fst (fold (claim L) ws (lv, nxt)) = fst (fold (claim L) ws' (lv, nxt))"
    and "set (snd (fold (claim L) ws (lv, nxt))) = set (snd (fold (claim L) ws' (lv, nxt)))"
proof -
  show "fst (fold (claim L) ws (lv, nxt)) = fst (fold (claim L) ws' (lv, nxt))"
  proof (rule nth_equalityI)
    show "length (fst (fold (claim L) ws (lv, nxt))) = length (fst (fold (claim L) ws' (lv, nxt)))"
      by (simp add: fold_claim_length)
  next
    fix v assume "v < length (fst (fold (claim L) ws (lv, nxt)))"
    then have "v < length lv" by (simp add: fold_claim_length)
    then show "fst (fold (claim L) ws (lv, nxt)) ! v = fst (fold (claim L) ws' (lv, nxt)) ! v"
      using assms(2) by (simp add: fold_claim_nth [OF assms(1)])
  qed
  have "\<forall>w\<in>set ws'. w < length lv"
    using assms(2,3) by simp
  then show "set (snd (fold (claim L) ws (lv, nxt))) = set (snd (fold (claim L) ws' (lv, nxt)))"
    using assms(2,3) by (simp add: fold_claim_set [OF assms(1)])
qed

lemma fold_fold_concat: "fold (fold f) xss acc = fold f (concat xss) acc"
  by (induction xss arbitrary: acc) simp_all

lemma top_down_step_fold:
  "top_down_step cfg bin_sz g L f lv =
     fold (claim L) (concat (map (row (out_adj g)) (members f))) (lv, [])"
proof -
  have "fold (\<lambda>unit acc. fold (claim L) unit acc) units (lv, []) =
        fold (claim L) (concat units) (lv, [])" for units
    using fold_fold_concat [of "claim L" units "(lv, [])"] by (simp add: fold_fold_concat)
  then show ?thesis
    by (simp add: top_down_step_def Let_def concat_bins)
qed

lemma fold_guarded_claim:
  "fold (\<lambda>v acc. if unvisited (fst acc ! v) \<and> P v then claim L v acc else acc) xs acc =
   fold (claim L) (filter P xs) acc"
proof (induction xs arbitrary: acc)
  case Nil
  then show ?case by simp
next
  case (Cons x xs)
  have "\<not> unvisited (fst acc ! x) \<Longrightarrow> claim L x acc = acc"
    by (cases acc) (simp add: claim_def)
  then show ?case using Cons.IH by auto
qed

lemma bottom_up_step_fold:
  "bottom_up_step g L bm lv =
     fold (claim L)
       (filter (\<lambda>v. list_ex (\<lambda>u. bm ! u \<noteq> 0) (row (in_adj g) v)) [0..<vert_count g]) (lv, [])"
  by (simp add: bottom_up_step_def fold_guarded_claim)

subsection \<open>Graph and frontier\<close>

lemma out_row_ok:
  assumes "graph_ok g" and "u < vert_count g" and "v \<in> set (row (out_adj g) u)"
  shows "v < vert_count g" and "u \<in> set (row (in_adj g) v)"
proof -
  have "list_all (\<lambda>u. list_all (\<lambda>v. v < vert_count g \<and> u \<in> set (row (in_adj g) v))
                  (row (out_adj g) u)) [0..<vert_count g]"
    using assms(1) unfolding graph_ok_def by blast
  then have "\<forall>u<vert_count g. \<forall>v\<in>set (row (out_adj g) u).
               v < vert_count g \<and> u \<in> set (row (in_adj g) v)"
    by (simp add: list_all_iff)
  then show "v < vert_count g" and "u \<in> set (row (in_adj g) v)"
    using assms(2,3) by blast+
qed

lemma in_row_ok:
  assumes "graph_ok g" and "v < vert_count g" and "u \<in> set (row (in_adj g) v)"
  shows "u < vert_count g" and "v \<in> set (row (out_adj g) u)"
proof -
  have "list_all (\<lambda>v. list_all (\<lambda>u. u < vert_count g \<and> v \<in> set (row (out_adj g) u))
                  (row (in_adj g) v)) [0..<vert_count g]"
    using assms(1) unfolding graph_ok_def by blast
  then have "\<forall>v<vert_count g. \<forall>u\<in>set (row (in_adj g) v).
               u < vert_count g \<and> v \<in> set (row (out_adj g) u)"
    by (simp add: list_all_iff)
  then show "u < vert_count g" and "v \<in> set (row (out_adj g) u)"
    using assms(2,3) by blast+
qed

lemma edges_bound:
  assumes "graph_ok g" and "(u, v) \<in> edges g"
  shows "u < vert_count g" and "v < vert_count g"
  using assms out_row_ok(1) by (auto simp: edges_def)

lemma members_bound: "frontier_ok V f \<Longrightarrow> set (members f) \<subseteq> {..<V}"
  by (cases f) (auto simp: frontier_ok_def)

lemma to_bitmap_member:
  assumes "frontier_ok V f" and "u < V"
  shows "to_bitmap V f ! u \<noteq> 0 \<longleftrightarrow> u \<in> set (members f)"
  using assms by (cases f) (auto simp: frontier_ok_def)

lemma representationFor_ok:
  assumes "set q \<subseteq> {..<V}"
  shows "frontier_ok V (representationFor cfg V q)"
    and "set (members (representationFor cfg V q)) = set q"
  using assms by (auto simp: representationFor_def frontier_ok_def split: if_splits)

subsection \<open>What a step discovers\<close>

lemma top_down_targets:
  assumes "graph_ok g" and "frontier_ok (vert_count g) f"
  shows "set (concat (map (row (out_adj g)) (members f))) =
           {v. \<exists>u\<in>set (members f). (u, v) \<in> edges g}"
  using assms members_bound [of "vert_count g" f] by (auto simp: edges_def)

lemma bottom_up_targets:
  assumes "graph_ok g" and "frontier_ok (vert_count g) f"
  shows "set (filter (\<lambda>v. list_ex (\<lambda>u. to_bitmap (vert_count g) f ! u \<noteq> 0) (row (in_adj g) v))
                [0..<vert_count g]) =
           {v. v < vert_count g \<and> (\<exists>u\<in>set (members f). (u, v) \<in> edges g)}"
proof -
  have "list_ex (\<lambda>u. to_bitmap (vert_count g) f ! u \<noteq> 0) (row (in_adj g) v) \<longleftrightarrow>
        (\<exists>u\<in>set (members f). (u, v) \<in> edges g)" if v: "v < vert_count g" for v
  proof
    assume "list_ex (\<lambda>u. to_bitmap (vert_count g) f ! u \<noteq> 0) (row (in_adj g) v)"
    then obtain u where u: "u \<in> set (row (in_adj g) v)" "to_bitmap (vert_count g) f ! u \<noteq> 0"
      by (auto simp: list_ex_iff)
    have "u < vert_count g" and "v \<in> set (row (out_adj g) u)"
      using in_row_ok [OF assms(1) v u(1)] by simp_all
    then show "\<exists>u\<in>set (members f). (u, v) \<in> edges g"
      using u(2) to_bitmap_member [OF assms(2)] by (auto simp: edges_def)
  next
    assume "\<exists>u\<in>set (members f). (u, v) \<in> edges g"
    then obtain u where u: "u \<in> set (members f)" "(u, v) \<in> edges g" by blast
    have "u < vert_count g" and "v \<in> set (row (out_adj g) u)"
      using u(2) by (simp_all add: edges_def)
    then have "u \<in> set (row (in_adj g) v)" and "to_bitmap (vert_count g) f ! u \<noteq> 0"
      using out_row_ok(2) [OF assms(1)] to_bitmap_member [OF assms(2)] u(1) by simp_all
    then show "list_ex (\<lambda>u. to_bitmap (vert_count g) f ! u \<noteq> 0) (row (in_adj g) v)"
      by (auto simp: list_ex_iff)
  qed
  then show ?thesis by auto
qed

lemma fold_claim_spec:
  assumes "L \<noteq> INFTY" and "length lv = V"
    and ws: "\<forall>v. v \<in> set ws \<longleftrightarrow> v < V \<and> (\<exists>u\<in>Fr. (u, v) \<in> E)"
    and res: "res = fold (claim L) ws (lv, [])"
  shows "length (fst res) = V"
    and "\<forall>v<V. fst res ! v = (if lv ! v = INFTY \<and> (\<exists>u\<in>Fr. (u, v) \<in> E) then L else lv ! v)"
    and "set (snd res) = {v. v < V \<and> lv ! v = INFTY \<and> (\<exists>u\<in>Fr. (u, v) \<in> E)}"
proof -
  show "length (fst res) = V"
    using assms(2) by (simp add: res fold_claim_length)
  show "\<forall>v<V. fst res ! v = (if lv ! v = INFTY \<and> (\<exists>u\<in>Fr. (u, v) \<in> E) then L else lv ! v)"
  proof (intro allI impI)
    fix v assume v: "v < V"
    then have "fst res ! v = (if lv ! v = INFTY \<and> v \<in> set ws then L else lv ! v)"
      using fold_claim_nth [OF assms(1), of v lv ws "[]"] assms(2) by (simp add: res)
    then show "fst res ! v = (if lv ! v = INFTY \<and> (\<exists>u\<in>Fr. (u, v) \<in> E) then L else lv ! v)"
      using ws v by simp
  qed
  have "\<forall>w\<in>set ws. w < length lv"
    using ws assms(2) by simp
  then have "set (snd res) = {w \<in> set ws. lv ! w = INFTY}"
    using fold_claim_set [OF assms(1), of ws lv "[]"] by (simp add: res)
  also have "\<dots> = {v. v < V \<and> lv ! v = INFTY \<and> (\<exists>u\<in>Fr. (u, v) \<in> E)}"
    using ws by blast
  finally show "set (snd res) = {v. v < V \<and> lv ! v = INFTY \<and> (\<exists>u\<in>Fr. (u, v) \<in> E)}" .
qed

lemma top_down_step_spec:
  assumes "graph_ok g" and "frontier_ok (vert_count g) f" and "length lv = vert_count g"
    and "L \<noteq> INFTY" and "res = top_down_step cfg bin_sz g L f lv"
  shows "length (fst res) = vert_count g"
    and "\<forall>v<vert_count g. fst res ! v =
           (if lv ! v = INFTY \<and> (\<exists>u\<in>set (members f). (u, v) \<in> edges g) then L else lv ! v)"
    and "set (snd res) =
           {v. v < vert_count g \<and> lv ! v = INFTY \<and> (\<exists>u\<in>set (members f). (u, v) \<in> edges g)}"
proof -
  let ?ws = "concat (map (row (out_adj g)) (members f))"
  have ws: "\<forall>v. v \<in> set ?ws \<longleftrightarrow> v < vert_count g \<and> (\<exists>u\<in>set (members f). (u, v) \<in> edges g)"
    using top_down_targets [OF assms(1,2)] edges_bound(2) [OF assms(1)] by blast
  have res: "res = fold (claim L) ?ws (lv, [])"
    using assms(5) by (simp only: top_down_step_fold)
  show "length (fst res) = vert_count g"
    and "\<forall>v<vert_count g. fst res ! v =
           (if lv ! v = INFTY \<and> (\<exists>u\<in>set (members f). (u, v) \<in> edges g) then L else lv ! v)"
    and "set (snd res) =
           {v. v < vert_count g \<and> lv ! v = INFTY \<and> (\<exists>u\<in>set (members f). (u, v) \<in> edges g)}"
    using fold_claim_spec [OF assms(4,3) ws res] by blast+
qed

lemma bottom_up_step_spec:
  assumes "graph_ok g" and "frontier_ok (vert_count g) f" and "length lv = vert_count g"
    and "L \<noteq> INFTY" and "res = bottom_up_step g L (to_bitmap (vert_count g) f) lv"
  shows "length (fst res) = vert_count g"
    and "\<forall>v<vert_count g. fst res ! v =
           (if lv ! v = INFTY \<and> (\<exists>u\<in>set (members f). (u, v) \<in> edges g) then L else lv ! v)"
    and "set (snd res) =
           {v. v < vert_count g \<and> lv ! v = INFTY \<and> (\<exists>u\<in>set (members f). (u, v) \<in> edges g)}"
proof -
  let ?ws = "filter (\<lambda>v. list_ex (\<lambda>u. to_bitmap (vert_count g) f ! u \<noteq> 0) (row (in_adj g) v))
               [0..<vert_count g]"
  have ws: "\<forall>v. v \<in> set ?ws \<longleftrightarrow> v < vert_count g \<and> (\<exists>u\<in>set (members f). (u, v) \<in> edges g)"
    using bottom_up_targets [OF assms(1,2)] by blast
  have res: "res = fold (claim L) ?ws (lv, [])"
    using assms(5) by (simp only: bottom_up_step_fold)
  show "length (fst res) = vert_count g"
    and "\<forall>v<vert_count g. fst res ! v =
           (if lv ! v = INFTY \<and> (\<exists>u\<in>set (members f). (u, v) \<in> edges g) then L else lv ! v)"
    and "set (snd res) =
           {v. v < vert_count g \<and> lv ! v = INFTY \<and> (\<exists>u\<in>set (members f). (u, v) \<in> edges g)}"
    using fold_claim_spec [OF assms(4,3) ws res] by blast+
qed

subsection \<open>Shortest paths\<close>

lemma shortest_unique: "shortest g s v m \<Longrightarrow> shortest g s v n \<Longrightarrow> m = n"
  unfolding shortest_def by (meson linorder_neqE_nat)

lemma reach_shortest:
  assumes "(s, v) \<in> edges g ^^ n"
  shows "\<exists>m\<le>n. shortest g s v m"
proof -
  let ?m = "LEAST m. (s, v) \<in> edges g ^^ m"
  have "(s, v) \<in> edges g ^^ ?m"
    using assms by (rule LeastI)
  moreover have "\<forall>j<?m. (s, v) \<notin> edges g ^^ j"
    using not_less_Least by blast
  moreover have "?m \<le> n"
    using assms by (rule Least_le)
  ultimately show ?thesis
    unfolding shortest_def by blast
qed

lemma shortest_pred:
  assumes "shortest g s v (Suc n)"
  shows "\<exists>u. shortest g s u n \<and> (u, v) \<in> edges g"
proof -
  obtain u where u: "(s, u) \<in> edges g ^^ n" "(u, v) \<in> edges g"
    using assms unfolding shortest_def by auto
  obtain m where m: "m \<le> n" "shortest g s u m"
    using reach_shortest [OF u(1)] by blast
  have "m = n"
  proof (rule ccontr)
    assume "m \<noteq> n"
    then have "Suc m < Suc n" using m(1) by simp
    moreover have "(s, v) \<in> edges g ^^ Suc m"
      using m(2) u(2) unfolding shortest_def by auto
    ultimately show False
      using assms unfolding shortest_def by blast
  qed
  then show ?thesis using m(2) u(2) by blast
qed

lemma reach_bound:
  assumes "graph_ok g" and "s < vert_count g" and "(s, v) \<in> edges g ^^ n"
  shows "v < vert_count g"
proof (cases n)
  case 0
  then show ?thesis using assms(2,3) by simp
next
  case (Suc m)
  then obtain u where "(u, v) \<in> edges g"
    using assms(3) by auto
  then show ?thesis by (rule edges_bound(2) [OF assms(1)])
qed

text \<open>If every level up to \<open>n\<close> holds a vertex, there are more than \<open>n\<close> vertices.\<close>

lemma levels_bound:
  assumes "\<forall>j\<le>n. \<exists>v<V. shortest g s v j"
  shows "n < V"
proof -
  obtain f where f: "\<forall>j\<le>n. f j < V \<and> shortest g s (f j) j"
    using assms by metis
  have "inj_on f {..n}"
  proof (rule inj_onI)
    fix i j assume ij: "i \<in> {..n}" "j \<in> {..n}" "f i = f j"
    have "shortest g s (f i) i" and "shortest g s (f i) j"
      using f ij by auto
    then show "i = j" by (rule shortest_unique)
  qed
  moreover have "f ` {..n} \<subseteq> {..<V}"
    using f by auto
  ultimately have "card {..n} \<le> card {..<V}"
    by (meson card_inj_on_le finite_lessThan)
  then show ?thesis by simp
qed

text \<open>Once a level is empty, all later levels are empty.\<close>

lemma empty_level_onwards:
  assumes "\<forall>v. \<not> shortest g s v k" and "k \<le> n"
  shows "\<not> shortest g s v n"
  using assms(2)
proof (induction n arbitrary: v)
  case 0
  then show ?case using assms(1) by simp
next
  case (Suc n)
  show ?case
  proof (cases "k = Suc n")
    case True
    then show ?thesis using assms(1) by simp
  next
    case False
    then have "k \<le> n" using Suc.prems by simp
    then have "\<forall>u. \<not> shortest g s u n" using Suc.IH by blast
    then show ?thesis using shortest_pred by blast
  qed
qed

text \<open>
  The levels fit the type of the level array. A shortest path of \<open>n\<close> edges
  passes one vertex at each distance up to \<open>n\<close>, and each of them but the source
  is the target of an entry of the neighbour array: there are at least \<open>n\<close>
  edges, and the edge count is a value of \<^verbatim>\<open>index_t\<close>.
\<close>

lemma edge_count_fits:
  assumes "graph_ok g"
  shows "edge_count g < 2 ^ 31"
proof -
  have "index_val (offsets (out_adj g) ! vert_count g) = int (edge_count g)"
    using assms unfolding graph_ok_def csr_invariant_def by blast
  moreover have "index_val (offsets (out_adj g) ! vert_count g) \<le> 2 ^ 31 - 1"
    using sint32_range [of "offsets (out_adj g) ! vert_count g"] by (simp add: index_val_def)
  ultimately have "int (edge_count g) < 2 ^ 31" by simp
  then show ?thesis by simp
qed

lemma edge_target_index:
  assumes "(u, w) \<in> edges g"
  shows "\<exists>i<edge_count g. w = vertex_val (neighbors (out_adj g) ! i)"
proof -
  have "w \<in> set (row (out_adj g) u)"
    using assms by (simp add: edges_def)
  then obtain x where x: "w = vertex_val x" "x \<in> set (neighbors (out_adj g))"
    unfolding row_def Let_def by (auto dest: in_set_takeD in_set_dropD)
  then obtain i where "i < length (neighbors (out_adj g))" "neighbors (out_adj g) ! i = x"
    by (auto simp: in_set_conv_nth)
  then show ?thesis using x(1) by (auto simp: edge_count_def)
qed

lemma shortest_prefix:
  assumes "shortest g s v n" and "j \<le> n"
  shows "\<exists>w. shortest g s w j"
  using assms
proof (induction n arbitrary: v)
  case 0
  then show ?case by auto
next
  case (Suc n)
  show ?case
  proof (cases "j = Suc n")
    case True
    then show ?thesis using Suc.prems(1) by blast
  next
    case False
    then have "j \<le> n" using Suc.prems(2) by simp
    moreover obtain u where "shortest g s u n"
      using shortest_pred [OF Suc.prems(1)] by blast
    ultimately show ?thesis using Suc.IH by blast
  qed
qed

lemma levels_le_edges:
  assumes "shortest g s v n"
  shows "n \<le> edge_count g"
proof -
  let ?w = "\<lambda>i. vertex_val (neighbors (out_adj g) ! i)"
  have "\<exists>i<edge_count g. shortest g s (?w i) (Suc j)" if jn: "j < n" for j
  proof -
    obtain w where w: "shortest g s w (Suc j)"
      using shortest_prefix [OF assms, of "Suc j"] jn by auto
    then obtain u where "(u, w) \<in> edges g"
      using shortest_pred by blast
    then show ?thesis using edge_target_index w by blast
  qed
  then obtain f where f: "\<forall>j<n. f j < edge_count g \<and> shortest g s (?w (f j)) (Suc j)"
    by metis
  have "inj_on f {..<n}"
  proof (rule inj_onI)
    fix i j assume ij: "i \<in> {..<n}" "j \<in> {..<n}" "f i = f j"
    have "shortest g s (?w (f i)) (Suc i)" and "shortest g s (?w (f i)) (Suc j)"
      using f ij by auto
    then have "Suc i = Suc j" by (rule shortest_unique)
    then show "i = j" by simp
  qed
  moreover have "f ` {..<n} \<subseteq> {..<edge_count g}"
    using f by auto
  ultimately have "card {..<n} \<le> card {..<edge_count g}"
    by (meson card_inj_on_le finite_lessThan)
  then show ?thesis by simp
qed

lemma level_fits:
  assumes "graph_ok g" and "shortest g s v n"
  shows "n < 2 ^ 31"
  using levels_le_edges [OF assms(2)] edge_count_fits [OF assms(1)] by simp

subsection \<open>The invariant of the loop\<close>

lemma bfs_invD:
  assumes "bfs_inv g s k st"
  shows "depth st = word_of_nat k"
    and "length (level st) = vert_count g"
    and "frontier_ok (vert_count g) (frontier st)"
    and "\<forall>v<vert_count g.
           (level st ! v = INFTY \<and> (\<forall>n\<le>k. (s, v) \<notin> edges g ^^ n)) \<or>
           (\<exists>n\<le>k. level st ! v = word_of_nat n \<and> shortest g s v n)"
    and "set (members (frontier st)) = {v. v < vert_count g \<and> shortest g s v k}"
    and "\<forall>j<k. \<exists>v<vert_count g. shortest g s v j"
  using assms by (simp_all add: bfs_inv_def)

lemma bfs_invI:
  assumes "depth st = word_of_nat k"
    and "length (level st) = vert_count g"
    and "frontier_ok (vert_count g) (frontier st)"
    and "\<forall>v<vert_count g.
           (level st ! v = INFTY \<and> (\<forall>n\<le>k. (s, v) \<notin> edges g ^^ n)) \<or>
           (\<exists>n\<le>k. level st ! v = word_of_nat n \<and> shortest g s v n)"
    and "set (members (frontier st)) = {v. v < vert_count g \<and> shortest g s v k}"
    and "\<forall>j<k. \<exists>v<vert_count g. shortest g s v j"
  shows "bfs_inv g s k st"
  using assms by (simp only: bfs_inv_def)

lemma bfs_inv_create:
  assumes "s < vert_count g"
  shows "bfs_inv g s 0 (create (vert_count g) s)"
proof -
  have 0: "shortest g s v 0 \<longleftrightarrow> v = s" for v
    by (auto simp: shortest_def)
  have "(replicate (vert_count g) INFTY)[s := 0] ! v = (if v = s then 0 else INFTY)"
    if "v < vert_count g" for v
    using that by (simp add: nth_list_update)
  then have "\<forall>v<vert_count g.
        (level (create (vert_count g) s) ! v = INFTY \<and> (\<forall>n\<le>0. (s, v) \<notin> edges g ^^ n)) \<or>
        (\<exists>n\<le>0. level (create (vert_count g) s) ! v = word_of_nat n \<and> shortest g s v n)"
    using 0 by (auto simp: create_def)
  moreover have "set (members (frontier (create (vert_count g) s)))
                   = {v. v < vert_count g \<and> shortest g s v 0}"
    using assms 0 by (auto simp: create_def)
  moreover have "frontier_ok (vert_count g) (frontier (create (vert_count g) s))"
    using assms by (simp add: create_def frontier_ok_def)
  ultimately show ?thesis
    by (intro bfs_invI) (simp_all add: create_def)
qed

lemma bfs_inv_frontier_nonempty:
  assumes "bfs_inv g s k st" and "\<not> isEmpty (frontier st)"
  shows "k < vert_count g"
proof -
  have "set (members (frontier st)) \<noteq> {}"
    using assms(2) by (simp add: isEmpty_def)
  then obtain v where "v \<in> set (members (frontier st))"
    by (meson ex_in_conv)
  then have "v \<in> {v. v < vert_count g \<and> shortest g s v k}"
    by (simp only: bfs_invD(5) [OF assms(1)])
  then have top: "\<exists>v<vert_count g. shortest g s v k"
    by (intro exI [of _ v]) simp
  have "\<forall>j\<le>k. \<exists>v<vert_count g. shortest g s v j"
  proof (intro allI impI)
    fix j assume "j \<le> k"
    then consider "j < k" | "j = k" by linarith
    then show "\<exists>v<vert_count g. shortest g s v j"
    proof cases
      case 1
      then show ?thesis using bfs_invD(6) [OF assms(1)] by blast
    next
      case 2
      then show ?thesis using top by simp
    qed
  qed
  then show ?thesis by (rule levels_bound)
qed

lemma bfs_inv_step:
  assumes ok: "graph_ok g" and inv: "bfs_inv g s k st" and ne: "\<not> isEmpty (frontier st)"
  shows "bfs_inv g s (Suc k) (level_step cfg bin_sz g st)"
proof -
  let ?V = "vert_count g"
  let ?lv = "level st"
  let ?f = "frontier st"
  let ?L = "word_of_nat (Suc k) :: feature_t"
  let ?sel = "select cfg (strategy st) (length (members ?f))
                (of_nat (sum_list (map (\<lambda>u. length (row (out_adj g) u)) (members ?f)))
                   / of_nat (edge_count g))"
  note d = bfs_invD(1) [OF inv] and len = bfs_invD(2) [OF inv] and fok = bfs_invD(3) [OF inv]
    and lev = bfs_invD(4) [OF inv] and fr = bfs_invD(5) [OF inv] and low = bfs_invD(6) [OF inv]
  have kV: "k < ?V"
    using inv ne by (rule bfs_inv_frontier_nonempty)
  have k31: "k < 2 ^ 31"
  proof -
    have "set (members ?f) \<noteq> {}"
      using ne by (simp add: isEmpty_def)
    then obtain w where "w \<in> set (members ?f)"
      by (meson ex_in_conv)
    then have "w \<in> {v. v < ?V \<and> shortest g s v k}"
      by (simp only: fr)
    then have "shortest g s w k" by simp
    then show ?thesis by (rule level_fits [OF ok])
  qed
  have L: "?L \<noteq> INFTY"
    using k31 by (intro word_of_nat_le_not_INFTY) simp
  have dL: "depth st + 1 = ?L"
    by (simp add: d)
  define res where "res =
    (case ?sel of
       TOP_DOWN \<Rightarrow> top_down_step cfg bin_sz g ?L ?f ?lv
     | BOTTOM_UP \<Rightarrow> bottom_up_step g ?L (to_bitmap ?V ?f) ?lv)"
  have res_cases: "res = top_down_step cfg bin_sz g ?L ?f ?lv \<or>
                   res = bottom_up_step g ?L (to_bitmap ?V ?f) ?lv"
    unfolding res_def by (cases ?sel) simp_all
  have r1: "length (fst res) = ?V"
    and r2: "\<forall>v<?V. fst res ! v =
               (if ?lv ! v = INFTY \<and> (\<exists>u\<in>set (members ?f). (u, v) \<in> edges g) then ?L
                else ?lv ! v)"
    and r3: "set (snd res) =
               {v. v < ?V \<and> ?lv ! v = INFTY \<and> (\<exists>u\<in>set (members ?f). (u, v) \<in> edges g)}"
  proof -
    show "length (fst res) = ?V"
      using res_cases top_down_step_spec(1) [OF ok fok len L]
        bottom_up_step_spec(1) [OF ok fok len L] by blast
    show "\<forall>v<?V. fst res ! v =
               (if ?lv ! v = INFTY \<and> (\<exists>u\<in>set (members ?f). (u, v) \<in> edges g) then ?L
                else ?lv ! v)"
      using res_cases
    proof
      assume "res = top_down_step cfg bin_sz g ?L ?f ?lv"
      then show ?thesis by (rule top_down_step_spec(2) [OF ok fok len L])
    next
      assume "res = bottom_up_step g ?L (to_bitmap ?V ?f) ?lv"
      then show ?thesis by (rule bottom_up_step_spec(2) [OF ok fok len L])
    qed
    show "set (snd res) =
               {v. v < ?V \<and> ?lv ! v = INFTY \<and> (\<exists>u\<in>set (members ?f). (u, v) \<in> edges g)}"
      using res_cases
    proof
      assume "res = top_down_step cfg bin_sz g ?L ?f ?lv"
      then show ?thesis by (rule top_down_step_spec(3) [OF ok fok len L])
    next
      assume "res = bottom_up_step g ?L (to_bitmap ?V ?f) ?lv"
      then show ?thesis by (rule bottom_up_step_spec(3) [OF ok fok len L])
    qed
  qed
  have st': "level_step cfg bin_sz g st =
               \<lparr>level = fst res, frontier = representationFor cfg ?V (snd res), depth = ?L,
                strategy = ?sel, sizes = sizes st @ [length (members ?f)]\<rparr>"
    unfolding level_step_def Let_def res_def dL ..
  have unv: "?lv ! v = INFTY \<longleftrightarrow> (\<forall>n\<le>k. (s, v) \<notin> edges g ^^ n)" if v: "v < ?V" for v
  proof
    assume a: "?lv ! v = INFTY"
    have "\<not> (\<exists>n\<le>k. ?lv ! v = word_of_nat n \<and> shortest g s v n)"
    proof
      assume "\<exists>n\<le>k. ?lv ! v = word_of_nat n \<and> shortest g s v n"
      then obtain n where n: "n \<le> k" "?lv ! v = word_of_nat n" by blast
      have "n < 2 ^ 31" using n(1) k31 by simp
      then show False using word_of_nat_not_INFTY [of n] n(2) a by simp
    qed
    then show "\<forall>n\<le>k. (s, v) \<notin> edges g ^^ n" using lev v by blast
  next
    assume "\<forall>n\<le>k. (s, v) \<notin> edges g ^^ n"
    then have "\<not> (\<exists>n\<le>k. ?lv ! v = word_of_nat n \<and> shortest g s v n)"
      unfolding shortest_def by blast
    then show "?lv ! v = INFTY" using lev v by blast
  qed
  have new: "(?lv ! v = INFTY \<and> (\<exists>u\<in>set (members ?f). (u, v) \<in> edges g))
               \<longleftrightarrow> shortest g s v (Suc k)" if v: "v < ?V" for v
  proof
    assume a: "?lv ! v = INFTY \<and> (\<exists>u\<in>set (members ?f). (u, v) \<in> edges g)"
    then obtain u where u0: "u \<in> set (members ?f)" and u2: "(u, v) \<in> edges g"
      by blast
    from u0 have "u \<in> {v. v < ?V \<and> shortest g s v k}"
      by (simp only: fr)
    then have u1: "shortest g s u k" by simp
    note u = u1 u2
    have "(s, v) \<in> edges g ^^ Suc k"
      using u unfolding shortest_def by auto
    moreover have "\<forall>m<Suc k. (s, v) \<notin> edges g ^^ m"
      using a unv [OF v] by (simp add: less_Suc_eq_le)
    ultimately show "shortest g s v (Suc k)"
      unfolding shortest_def by blast
  next
    assume a: "shortest g s v (Suc k)"
    then have "\<forall>n\<le>k. (s, v) \<notin> edges g ^^ n"
      unfolding shortest_def by (simp add: less_Suc_eq_le)
    then have "?lv ! v = INFTY" using unv [OF v] by blast
    moreover obtain u where u: "shortest g s u k" "(u, v) \<in> edges g"
      using shortest_pred [OF a] by blast
    moreover have "u < ?V" using edges_bound(1) [OF ok u(2)] .
    moreover have "u \<in> set (members ?f)"
      unfolding fr using calculation by simp
    ultimately show "?lv ! v = INFTY \<and> (\<exists>u\<in>set (members ?f). (u, v) \<in> edges g)"
      by blast
  qed
  have lev': "\<forall>v<?V. (fst res ! v = INFTY \<and> (\<forall>n\<le>Suc k. (s, v) \<notin> edges g ^^ n)) \<or>
                       (\<exists>n\<le>Suc k. fst res ! v = word_of_nat n \<and> shortest g s v n)"
  proof (intro allI impI)
    fix v assume v: "v < ?V"
    show "(fst res ! v = INFTY \<and> (\<forall>n\<le>Suc k. (s, v) \<notin> edges g ^^ n)) \<or>
          (\<exists>n\<le>Suc k. fst res ! v = word_of_nat n \<and> shortest g s v n)"
    proof (cases "shortest g s v (Suc k)")
      case True
      then have "?lv ! v = INFTY \<and> (\<exists>u\<in>set (members ?f). (u, v) \<in> edges g)"
        using new [OF v] by blast
      then have "(if ?lv ! v = INFTY \<and> (\<exists>u\<in>set (members ?f). (u, v) \<in> edges g) then ?L
                  else ?lv ! v) = ?L"
        by (rule if_P)
      with r2 [rule_format, OF v] have "fst res ! v = ?L" by (rule trans)
      then show ?thesis using True by blast
    next
      case False
      then have "\<not> (?lv ! v = INFTY \<and> (\<exists>u\<in>set (members ?f). (u, v) \<in> edges g))"
        using new [OF v] by blast
      then have "(if ?lv ! v = INFTY \<and> (\<exists>u\<in>set (members ?f). (u, v) \<in> edges g) then ?L
                  else ?lv ! v) = ?lv ! v"
        by (rule if_not_P)
      with r2 [rule_format, OF v] have same: "fst res ! v = ?lv ! v" by (rule trans)
      show ?thesis
      proof (cases "?lv ! v = INFTY")
        case True
        then have "\<forall>n\<le>k. (s, v) \<notin> edges g ^^ n" using unv [OF v] by blast
        moreover have "(s, v) \<notin> edges g ^^ Suc k"
          using False calculation unfolding shortest_def by (auto simp: less_Suc_eq_le)
        ultimately have "\<forall>n\<le>Suc k. (s, v) \<notin> edges g ^^ n"
          by (auto simp: le_Suc_eq)
        then show ?thesis using True same by simp
      next
        case False
        then obtain n where "n \<le> k" "?lv ! v = word_of_nat n" "shortest g s v n"
          using lev v by blast
        then show ?thesis using same by (metis le_Suc_eq)
      qed
    qed
  qed
  have sub: "set (snd res) \<subseteq> {..<?V}"
    using r3 by auto
  have "set (snd res) = {v. v < ?V \<and> shortest g s v (Suc k)}"
  proof (rule set_eqI)
    fix v
    show "v \<in> set (snd res) \<longleftrightarrow> v \<in> {v. v < ?V \<and> shortest g s v (Suc k)}"
    proof (cases "v < ?V")
      case True
      then show ?thesis unfolding r3 using new [OF True] by simp
    next
      case False
      then show ?thesis unfolding r3 by simp
    qed
  qed
  then have fr': "set (members (representationFor cfg ?V (snd res)))
               = {v. v < ?V \<and> shortest g s v (Suc k)}"
    by (simp only: representationFor_ok(2) [OF sub])
  have low': "\<forall>j<Suc k. \<exists>v<?V. shortest g s v j"
  proof (intro allI impI)
    fix j assume "j < Suc k"
    then consider "j < k" | "j = k" by linarith
    then show "\<exists>v<?V. shortest g s v j"
    proof cases
      case 1
      then show ?thesis using low by blast
    next
      case 2
      have "k < ?V \<and> (\<exists>v<?V. shortest g s v k)"
      proof -
        have "set (members ?f) \<noteq> {}" using ne by (simp add: isEmpty_def)
        then obtain w where "w \<in> set (members ?f)" by (meson ex_in_conv)
        then have "w \<in> {v. v < ?V \<and> shortest g s v k}" by (simp only: fr)
        then show ?thesis using kV by (intro conjI exI [of _ w]) simp_all
      qed
      then show ?thesis using 2 by simp
    qed
  qed
  show ?thesis
    unfolding st'
  proof (rule bfs_invI)
    show "depth \<lparr>level = fst res, frontier = representationFor cfg ?V (snd res), depth = ?L,
                   strategy = ?sel, sizes = sizes st @ [length (members ?f)]\<rparr> = ?L"
      by simp
    show "length (level \<lparr>level = fst res, frontier = representationFor cfg ?V (snd res),
                   depth = ?L, strategy = ?sel, sizes = sizes st @ [length (members ?f)]\<rparr>)
            = ?V"
      using r1 by simp
    show "frontier_ok ?V (frontier \<lparr>level = fst res,
                   frontier = representationFor cfg ?V (snd res), depth = ?L, strategy = ?sel,
                   sizes = sizes st @ [length (members ?f)]\<rparr>)"
      using representationFor_ok(1) [OF sub, of cfg] by simp
    show "\<forall>v<?V.
           (level \<lparr>level = fst res, frontier = representationFor cfg ?V (snd res), depth = ?L,
                   strategy = ?sel, sizes = sizes st @ [length (members ?f)]\<rparr> ! v = INFTY \<and>
              (\<forall>n\<le>Suc k. (s, v) \<notin> edges g ^^ n)) \<or>
           (\<exists>n\<le>Suc k. level \<lparr>level = fst res, frontier = representationFor cfg ?V (snd res),
                   depth = ?L, strategy = ?sel, sizes = sizes st @ [length (members ?f)]\<rparr> ! v
                 = word_of_nat n \<and> shortest g s v n)"
      using lev' by (simp only: bfs_state.simps)
    show "set (members (frontier \<lparr>level = fst res,
                   frontier = representationFor cfg ?V (snd res), depth = ?L, strategy = ?sel,
                   sizes = sizes st @ [length (members ?f)]\<rparr>))
            = {v. v < ?V \<and> shortest g s v (Suc k)}"
      using fr' by (simp only: bfs_state.simps)
    show "\<forall>j<Suc k. \<exists>v<?V. shortest g s v j"
      by (rule low')
  qed
qed

subsection \<open>The loop returns\<close>

lemma bfs_loop_returns:
  assumes ok: "graph_ok g" and inv: "bfs_inv g s k st"
  shows "\<exists>st' k'. bfs_loop cfg bin_sz g st = Some st' \<and> bfs_inv g s k' st' \<and>
                  isEmpty (frontier st')"
  using inv
proof (induction "vert_count g - k" arbitrary: k st rule: less_induct)
  case less
  show ?case
  proof (cases "isEmpty (frontier st)")
    case True
    then have "bfs_loop cfg bin_sz g st = Some st"
      by (subst bfs_loop.simps) simp
    then show ?thesis using less.prems True by blast
  next
    case False
    have "k < vert_count g"
      using less.prems False by (rule bfs_inv_frontier_nonempty)
    then have "vert_count g - Suc k < vert_count g - k" by simp
    moreover have "bfs_inv g s (Suc k) (level_step cfg bin_sz g st)"
      using ok less.prems False by (rule bfs_inv_step)
    ultimately obtain st' k' where
      "bfs_loop cfg bin_sz g (level_step cfg bin_sz g st) = Some st'"
      "bfs_inv g s k' st'" "isEmpty (frontier st')"
      using less.hyps by blast
    moreover have "bfs_loop cfg bin_sz g st = bfs_loop cfg bin_sz g (level_step cfg bin_sz g st)"
      using False by (subst bfs_loop.simps) simp
    ultimately show ?thesis by auto
  qed
qed

lemma bfs_inv_final:
  assumes ok: "graph_ok g" and s: "s < vert_count g"
    and inv: "bfs_inv g s k st" and fin: "isEmpty (frontier st)" and v: "v < vert_count g"
  shows "(s, v) \<in> (edges g)\<^sup>* \<Longrightarrow> \<exists>n. feature_val (level st ! v) = int n \<and> shortest g s v n"
    and "(s, v) \<notin> (edges g)\<^sup>* \<Longrightarrow> unvisited (level st ! v)"
proof -
  note lev = bfs_invD(4) [OF inv] and fr = bfs_invD(5) [OF inv] and low = bfs_invD(6) [OF inv]
  have empty: "\<not> shortest g s w k" for w
  proof
    assume w: "shortest g s w k"
    then have "(s, w) \<in> edges g ^^ k" unfolding shortest_def by blast
    then have "w < vert_count g" by (rule reach_bound [OF ok s])
    then have "w \<in> {v. v < vert_count g \<and> shortest g s v k}" using w by simp
    then have "w \<in> set (members (frontier st))" by (simp only: fr)
    then show False using fin by (simp add: isEmpty_def)
  qed
  show "\<exists>n. feature_val (level st ! v) = int n \<and> shortest g s v n"
    if "(s, v) \<in> (edges g)\<^sup>*"
  proof -
    from that obtain n0 where "(s, v) \<in> edges g ^^ n0"
      by (auto dest: rtrancl_imp_relpow)
    then obtain m where m: "shortest g s v m"
      using reach_shortest by blast
    have mk: "m < k"
    proof (rule ccontr)
      assume "\<not> m < k"
      then have "k \<le> m" by simp
      then have "\<not> shortest g s v m"
        using empty_level_onwards [of g s k m v] empty by blast
      then show False using m by blast
    qed
    have "\<not> (\<forall>n\<le>k. (s, v) \<notin> edges g ^^ n)"
      using m mk unfolding shortest_def by (meson less_imp_le)
    then obtain n where n: "n \<le> k" "level st ! v = word_of_nat n" "shortest g s v n"
      using lev v by blast
    have "n = m" using n(3) m by (rule shortest_unique)
    have "n < 2 ^ 31" using ok n(3) by (rule level_fits)
    then have "feature_val (level st ! v) = int n"
      by (simp add: feature_val_def n(2) sint_word_of_nat)
    then show ?thesis
      using n(3) by blast
  qed
  show "unvisited (level st ! v)" if unreach: "(s, v) \<notin> (edges g)\<^sup>*"
  proof -
    have "\<not> (\<exists>n\<le>k. level st ! v = word_of_nat n \<and> shortest g s v n)"
    proof
      assume "\<exists>n\<le>k. level st ! v = word_of_nat n \<and> shortest g s v n"
      then obtain n where "(s, v) \<in> edges g ^^ n" unfolding shortest_def by blast
      then have "(s, v) \<in> (edges g)\<^sup>*" by (rule relpow_imp_rtrancl)
      then show False using unreach by blast
    qed
    then have "level st ! v = INFTY" using lev v by blast
    then show ?thesis by (simp add: unvisited_def)
  qed
qed


text \<open>
  The level array of a traversal does not depend on the thresholds or on the bin size,
  hence not on the strategies the selector chose: a run that stays top-down, a run that
  goes bottom-up and the adaptive run end with the same levels.
\<close>

lemma bfs_levels_unique:
  assumes ok: "graph_ok g" and s: "s < vert_count g"
    and st: "bfs_loop cfg bin_sz g (create (vert_count g) s) = Some st"
    and st': "bfs_loop cfg' bin_sz' g (create (vert_count g) s) = Some st'"
  shows "level st = level st'"
proof -
  have init: "bfs_inv g s 0 (create (vert_count g) s)"
    using s by (rule bfs_inv_create)
  obtain k where inv: "bfs_inv g s k st" and fin: "isEmpty (frontier st)"
    using bfs_loop_returns [OF ok init, of cfg bin_sz] st by auto
  obtain k' where inv': "bfs_inv g s k' st'" and fin': "isEmpty (frontier st')"
    using bfs_loop_returns [OF ok init, of cfg' bin_sz'] st' by auto
  show ?thesis
  proof (rule nth_equalityI)
    show "length (level st) = length (level st')"
      using bfs_invD(2) [OF inv] bfs_invD(2) [OF inv'] by simp
  next
    fix v assume "v < length (level st)"
    then have v: "v < vert_count g" using bfs_invD(2) [OF inv] by simp
    show "level st ! v = level st' ! v"
    proof (cases "(s, v) \<in> (edges g)\<^sup>*")
      case True
      obtain n where n: "feature_val (level st ! v) = int n" "shortest g s v n"
        using bfs_inv_final(1) [OF ok s inv fin v True] by blast
      obtain n' where n': "feature_val (level st' ! v) = int n'" "shortest g s v n'"
        using bfs_inv_final(1) [OF ok s inv' fin' v True] by blast
      have "n = n'" using n(2) n'(2) by (rule shortest_unique)
      then have "sint (level st ! v) = sint (level st' ! v)"
        using n(1) n'(1) by (simp add: feature_val_def)
      then show ?thesis by (rule signed_word_eqI)
    next
      case False
      then show ?thesis
        using bfs_inv_final(2) [OF ok s inv fin v] bfs_inv_final(2) [OF ok s inv' fin' v]
        by (simp add: unvisited_def)
    qed
  qed
qed

subsection \<open>The example run\<close>

lemma upt_5: "[0..<5] = [0, 1, 2, 3, 4]"
  by code_simp

lemma example_rows:
  "row (out_adj example_graph) 0 = [1, 2]"
  "row (out_adj example_graph) 1 = [3]"
  "row (out_adj example_graph) 2 = [3]"
  "row (out_adj example_graph) 3 = []"
  "row (out_adj example_graph) 4 = [4]"
  "row (in_adj example_graph) 0 = []"
  "row (in_adj example_graph) 1 = [0]"
  "row (in_adj example_graph) 2 = [0]"
  "row (in_adj example_graph) 3 = [1, 2]"
  "row (in_adj example_graph) 4 = [4]"
  "row (out_adj example_graph) (Suc 0) = [3]"
  "row (in_adj example_graph) (Suc 0) = [0]"
  by (simp_all add: example_graph_def row_def index_val_def vertex_val_def)

lemma example_graph_ok: "graph_ok example_graph"
proof -
  have "csr_invariant 5 5 (out_adj example_graph)" "csr_invariant 5 5 (in_adj example_graph)"
    by (simp_all add: csr_invariant_def example_graph_def index_val_def)
  moreover have "vert_count example_graph = 5" "edge_count example_graph = 5"
    "index_val (offsets (out_adj example_graph) ! 0) = 0"
    "index_val (offsets (in_adj example_graph) ! 0) = 0"
    by (simp_all add: example_graph_def edge_count_def index_val_def)
  ultimately show ?thesis
    unfolding graph_ok_def by (simp add: upt_5 example_rows)
qed

lemma list_update_Cons_numeral: "(x # xs)[numeral v := y] = x # xs[numeral v - 1 := y]"
  by (simp add: numeral_eq_Suc)

lemma replicate_5: "replicate 5 x = [x, x, x, x, x]"
  by (simp add: eval_nat_numeral)

lemma example_sizes: "vert_count example_graph = 5" "edge_count example_graph = 5"
  by (simp_all add: example_graph_def edge_count_def)

lemmas example_simps =
  level_step_def top_down_step_def bottom_up_step_def claim_def unvisited_def INFTY_def
  representationFor_def Let_def example_rows example_sizes example_thresholds_def upt_5
  replicate_5 list_update_Cons_numeral

lemma example_step_0:
  "level_step example_thresholds 8192 example_graph (create (vert_count example_graph) 0) =
     \<lparr>level = [0, 1, 1, - 1, - 1], frontier = Bitmap [0, 1, 1, 0, 0], depth = 1,
      strategy = TOP_DOWN, sizes = [1]\<rparr>"
  by (simp add: create_def example_simps)

lemma example_step_1:
  "level_step example_thresholds 8192 example_graph
     \<lparr>level = [0, 1, 1, - 1, - 1], frontier = Bitmap [0, 1, 1, 0, 0], depth = 1,
      strategy = TOP_DOWN, sizes = [1]\<rparr> =
     \<lparr>level = [0, 1, 1, 2, - 1], frontier = Queue [3], depth = 2,
      strategy = BOTTOM_UP, sizes = [1, 2]\<rparr>"
  by (simp add: example_simps)

lemma example_step_2:
  "level_step example_thresholds 8192 example_graph
     \<lparr>level = [0, 1, 1, 2, - 1], frontier = Queue [3], depth = 2,
      strategy = BOTTOM_UP, sizes = [1, 2]\<rparr> =
     \<lparr>level = [0, 1, 1, 2, - 1], frontier = Queue [], depth = 3,
      strategy = TOP_DOWN, sizes = [1, 2, 1]\<rparr>"
  by (simp add: example_simps)

lemma bfs_loop_done: "isEmpty (frontier st) \<Longrightarrow> bfs_loop cfg bin_sz g st = Some st"
  by (subst bfs_loop.simps) simp

lemma bfs_loop_step:
  "\<not> isEmpty (frontier st) \<Longrightarrow>
     bfs_loop cfg bin_sz g st = bfs_loop cfg bin_sz g (level_step cfg bin_sz g st)"
  by (subst bfs_loop.simps) simp

lemma example_run:
  "bfs_loop example_thresholds 8192 example_graph (create (vert_count example_graph) 0) =
     Some \<lparr>level = [0, 1, 1, 2, - 1], frontier = Queue [], depth = 3,
           strategy = TOP_DOWN, sizes = [1, 2, 1]\<rparr>"
proof -
  let ?st1 = "\<lparr>level = [0, 1, 1, - 1, - 1], frontier = Bitmap [0, 1, 1, 0, 0], depth = 1,
               strategy = TOP_DOWN, sizes = [1]\<rparr>"
  let ?st2 = "\<lparr>level = [0, 1, 1, 2, - 1], frontier = Queue [3], depth = 2,
               strategy = BOTTOM_UP, sizes = [1, 2]\<rparr>"
  let ?st3 = "\<lparr>level = [0, 1, 1, 2, - 1], frontier = Queue [], depth = 3,
               strategy = TOP_DOWN, sizes = [1, 2, 1]\<rparr>"
  let ?loop = "bfs_loop example_thresholds 8192 example_graph"
  let ?step = "level_step example_thresholds 8192 example_graph"
  have "\<not> isEmpty (frontier (create (vert_count example_graph) 0))"
    by (simp add: isEmpty_def create_def)
  then have "?loop (create (vert_count example_graph) 0)
               = ?loop (?step (create (vert_count example_graph) 0))"
    by (rule bfs_loop_step)
  also have "\<dots> = ?loop ?st1"
    by (simp only: example_step_0)
  also have "\<dots> = ?loop (?step ?st1)"
    by (rule bfs_loop_step) (simp add: isEmpty_def upt_5)
  also have "\<dots> = ?loop ?st2"
    by (simp only: example_step_1)
  also have "\<dots> = ?loop (?step ?st2)"
    by (rule bfs_loop_step) (simp add: isEmpty_def)
  also have "\<dots> = ?loop ?st3"
    by (simp only: example_step_2)
  also have "\<dots> = Some ?st3"
    by (rule bfs_loop_done) (simp add: isEmpty_def)
  finally show ?thesis .
qed

subsection \<open>Levels are shortest-path lengths\<close>

text \<open>
  C1: for a graph given by its out- and in-adjacency and a source vertex, the traversal
  returns, whatever the thresholds and the bin size; in the level array it returns,
  every vertex reachable from the source holds the length of a shortest path from the
  source, and every other vertex holds the sentinel.
\<close>

theorem bfs_levels_shortest_path:
  assumes "graph_ok g" and "source < vert_count g"
  shows "\<exists>st. bfs_loop cfg bin_sz g (create (vert_count g) source) = Some st \<and>
              (\<not> config_error cfg bin_sz \<longrightarrow> run cfg bin_sz g source = Some ([], Inr st)) \<and>
              length (level st) = vert_count g \<and>
              (\<forall>v<vert_count g.
                 ((source, v) \<in> (edges g)\<^sup>* \<longrightarrow>
                    (\<exists>n. feature_val (level st ! v) = int n \<and> shortest g source v n)) \<and>
                 ((source, v) \<notin> (edges g)\<^sup>* \<longrightarrow> unvisited (level st ! v)))"
proof -
  have "bfs_inv g source 0 (create (vert_count g) source)"
    using assms(2) by (rule bfs_inv_create)
  then obtain st k where st: "bfs_loop cfg bin_sz g (create (vert_count g) source) = Some st"
    and inv: "bfs_inv g source k st" and fin: "isEmpty (frontier st)"
    using bfs_loop_returns [OF assms(1)] by blast
  have "run cfg bin_sz g source = Some ([], Inr st)" if "\<not> config_error cfg bin_sz"
    using that st by (simp add: run_def)
  moreover have "length (level st) = vert_count g"
    by (rule bfs_invD(2) [OF inv])
  moreover have "\<forall>v<vert_count g.
                 ((source, v) \<in> (edges g)\<^sup>* \<longrightarrow>
                    (\<exists>n. feature_val (level st ! v) = int n \<and> shortest g source v n)) \<and>
                 ((source, v) \<notin> (edges g)\<^sup>* \<longrightarrow> unvisited (level st ! v))"
    using bfs_inv_final [OF assms inv fin] by blast
  ultimately show ?thesis using st by blast
qed

theorem bfs_levels_shortest_path_witness:
  "graph_ok example_graph \<and> (0 :: nat) < vert_count example_graph \<and>
   run example_thresholds 8192 example_graph 0 =
     Some ([], Inr \<lparr>level = [0, 1, 1, 2, - 1], frontier = Queue [], depth = 3,
                    strategy = TOP_DOWN, sizes = [1, 2, 1]\<rparr>) \<and>
   shortest example_graph 0 3 2 \<and>
   (0, 4) \<notin> (edges example_graph)\<^sup>*"
proof -
  let ?st = "\<lparr>level = [0, 1, 1, 2, - 1], frontier = Queue [], depth = 3,
              strategy = TOP_DOWN, sizes = [1, 2, 1]\<rparr>"
  have src: "(0 :: nat) < vert_count example_graph"
    by (simp add: example_sizes)
  have cfg: "\<not> config_error example_thresholds 8192"
    by (simp add: config_error_def example_thresholds_def)
  obtain st where st: "bfs_loop example_thresholds 8192 example_graph
                         (create (vert_count example_graph) 0) = Some st"
    and r: "\<not> config_error example_thresholds 8192 \<longrightarrow>
              run example_thresholds 8192 example_graph 0 = Some ([], Inr st)"
    and lv: "\<forall>v<vert_count example_graph.
               ((0, v) \<in> (edges example_graph)\<^sup>* \<longrightarrow>
                  (\<exists>n. feature_val (level st ! v) = int n \<and> shortest example_graph 0 v n)) \<and>
               ((0, v) \<notin> (edges example_graph)\<^sup>* \<longrightarrow> unvisited (level st ! v))"
    using bfs_levels_shortest_path [OF example_graph_ok src, of example_thresholds 8192]
    by blast
  have eq: "st = ?st"
    using st example_run by simp
  have "(0, 1) \<in> edges example_graph" and "(1, 3) \<in> edges example_graph"
    by (simp_all add: edges_def example_sizes example_rows)
  then have "(0, 3) \<in> (edges example_graph)\<^sup>*"
    by (meson rtrancl.rtrancl_into_rtrancl rtrancl.rtrancl_refl)
  moreover have "(3 :: nat) < vert_count example_graph"
    by (simp add: example_sizes)
  ultimately obtain n where
    n: "feature_val (level st ! 3) = int n" "shortest example_graph 0 3 n"
    using lv by blast
  have "feature_val (level st ! 3) = 2"
    by (simp add: eq feature_val_def)
  then have "n = 2" using n(1) by simp
  then have three: "shortest example_graph 0 3 2" using n(2) by simp
  have four: "(0, 4) \<notin> (edges example_graph)\<^sup>*"
  proof
    assume "(0, 4) \<in> (edges example_graph)\<^sup>*"
    moreover have "(4 :: nat) < vert_count example_graph"
      by (simp add: example_sizes)
    ultimately obtain m where "feature_val (level st ! 4) = int m"
      using lv by blast
    moreover have "feature_val (level st ! 4) = - 1"
      by (simp add: eq feature_val_def)
    ultimately show False by simp
  qed
  show ?thesis
    using example_graph_ok src r cfg three four by (simp add: eq)
qed

end
